theory Spec2Isabelle
  imports Main
begin

section \<open>Characters and strings\<close>

text \<open>
  Python strings are sequences of Unicode code points. The model covers the code points
  0..255 (one \<^typ>\<open>char\<close> each); the character classes below are Python's own tables
  restricted to that range: \<open>str.isspace\<close> (used by \<open>str.strip\<close> and by \<open>\s\<close>),
  the word characters of \<open>\w\<close>, the decimal digits of \<open>\d\<close>, and the case mappings
  of \<open>str.lower\<close> and \<open>str.upper\<close>. Beyond that range \<open>str.lower\<close> can turn a code
  point that is no ASCII letter into one (the Kelvin sign, 8490, becomes \<open>k\<close>) and can
  lengthen a string, so no statement below rests on lowercasing mapping \<open>[A-Za-z]\<close>
  onto itself, on its keeping the length of a string that is not in \<open>[A-Za-z]+\<close>, or
  on its being idempotent.
\<close>

definition code_point :: "char \<Rightarrow> nat" where
  "code_point c = of_char c"

definition is_space :: "char \<Rightarrow> bool" where
  "is_space c \<longleftrightarrow>
     (let n = code_point c
      in (9 \<le> n \<and> n \<le> 13) \<or> (28 \<le> n \<and> n \<le> 32) \<or> n = 133 \<or> n = 160)"

definition is_digit :: "char \<Rightarrow> bool" where
  "is_digit c \<longleftrightarrow> (let n = code_point c in 48 \<le> n \<and> n \<le> 57)"

definition is_ascii_upper :: "char \<Rightarrow> bool" where
  "is_ascii_upper c \<longleftrightarrow> (let n = code_point c in 65 \<le> n \<and> n \<le> 90)"

definition is_ascii_lower :: "char \<Rightarrow> bool" where
  "is_ascii_lower c \<longleftrightarrow> (let n = code_point c in 97 \<le> n \<and> n \<le> 122)"

text \<open>The class \<open>[A-Za-z]\<close>.\<close>

definition is_ascii_letter :: "char \<Rightarrow> bool" where
  "is_ascii_letter c \<longleftrightarrow> is_ascii_upper c \<or> is_ascii_lower c"

text \<open>The class \<open>\w\<close>: alphanumeric code points and the underscore.\<close>

definition is_word :: "char \<Rightarrow> bool" where
  "is_word c \<longleftrightarrow>
     (let n = code_point c
      in is_digit c \<or> is_ascii_letter c \<or> n = 95 \<or> n = 170 \<or> (178 \<le> n \<and> n \<le> 179) \<or>
         n = 181 \<or> (185 \<le> n \<and> n \<le> 186) \<or> (188 \<le> n \<and> n \<le> 190) \<or>
         (192 \<le> n \<and> n \<le> 214) \<or> (216 \<le> n \<and> n \<le> 246) \<or> 248 \<le> n)"

definition lower_char :: "char \<Rightarrow> char" where
  "lower_char c =
     (let n = code_point c
      in if (65 \<le> n \<and> n \<le> 90) \<or> (192 \<le> n \<and> n \<le> 214) \<or> (216 \<le> n \<and> n \<le> 222)
         then char_of (n + 32) else c)"

text \<open>
  \<open>str.upper\<close> maps one code point to a string: the sharp s (223) becomes \<open>SS\<close>. The
  images of 181 and 255 lie outside the modelled range; they are kept as they are, which
  like their images are no ASCII letters.
\<close>

definition upper_char :: "char \<Rightarrow> string" where
  "upper_char c =
     (let n = code_point c
      in if (97 \<le> n \<and> n \<le> 122) \<or> (224 \<le> n \<and> n \<le> 246) \<or> (248 \<le> n \<and> n \<le> 254)
         then [char_of (n - 32)]
         else if n = 223 then ''SS'' else [c])"

definition str_lower :: "string \<Rightarrow> string" where
  "str_lower s = map lower_char s"

definition str_upper :: "string \<Rightarrow> string" where
  "str_upper s = concat (map upper_char s)"

definition str_strip :: "string \<Rightarrow> string" where
  "str_strip s = rev (dropWhile is_space (rev (dropWhile is_space s)))"

text \<open>\<open>s.endswith(suf)\<close> and \<open>s.startswith(pre)\<close>.\<close>

definition endswith :: "string \<Rightarrow> string \<Rightarrow> bool" where
  "endswith s suf \<longleftrightarrow> length suf \<le> length s \<and> drop (length s - length suf) s = suf"

definition startswith :: "string \<Rightarrow> string \<Rightarrow> bool" where
  "startswith s pre \<longleftrightarrow> take (length pre) s = pre"

text \<open>The slice \<open>s[:-k]\<close> for a positive literal \<open>k\<close>.\<close>

definition drop_last :: "nat \<Rightarrow> string \<Rightarrow> string" where
  "drop_last k s = take (length s - k) s"

section \<open>Lexical resources\<close>

type_synonym lemma_dict = "string \<rightharpoonup> string"

definition FALLBACK_LEMMA_DICT :: lemma_dict where
  "FALLBACK_LEMMA_DICT = map_of
     [(''helps'', ''help''), (''computers'', ''computer''), (''apps'', ''app''),
      (''results'', ''result''), (''students'', ''student''), (''sentences'', ''sentence''),
      (''words'', ''word''), (''parts'', ''part''), (''processing'', ''process''),
      (''systems'', ''system''), (''documents'', ''document''), (''questions'', ''question''),
      (''starts'', ''start''), (''assigns'', ''assign''), (''reduces'', ''reduce''),
      (''affects'', ''affect''), (''includes'', ''include''), (''meanings'', ''meaning''),
      (''running'', ''run'')]"

text \<open>
  \<open>line.split(sep, 1)\<close> for a separator that occurs in the line: the part before its
  first occurrence and the part after it.
\<close>

definition split_first :: "char \<Rightarrow> string \<Rightarrow> string \<times> string" where
  "split_first sep line =
     (takeWhile (\<lambda>c. c \<noteq> sep) line, tl (dropWhile (\<lambda>c. c \<noteq> sep) line))"

text \<open>
  The body of the loop of \<open>load_lemma_dict\<close> for one line of the file: \<open>None\<close> where
  the source reaches a \<open>continue\<close>, otherwise the pair \<open>(w, l)\<close>.
\<close>

definition parse_line :: "string \<Rightarrow> (string \<times> string) option" where
  "parse_line line =
     (let line = str_strip line
      in if line = [] \<or> startswith line ''#'' then None
         else if CHR 0x09 \<in> set line then Some (split_first (CHR 0x09) line)
         else if CHR '' '' \<in> set line then Some (split_first (CHR '' '') line)
         else None)"

fun load_lines :: "string list \<Rightarrow> lemma_dict \<Rightarrow> lemma_dict" where
  "load_lines [] lemma_map = lemma_map"
| "load_lines (line # rest) lemma_map =
     (case parse_line line of
        None \<Rightarrow> load_lines rest lemma_map
      | Some (w, l) \<Rightarrow> load_lines rest (lemma_map(str_lower w \<mapsto> str_lower l)))"

text \<open>\<open>load_lemma_dict\<close> on a file that could be opened, given as its lines.\<close>

definition load_lemma_dict :: "string list \<Rightarrow> lemma_dict" where
  "load_lemma_dict lines = load_lines lines Map.empty"

section \<open>Lemmatizer\<close>

text \<open>\<open>re.fullmatch(r"[A-Za-z]+", tok)\<close>.\<close>

definition fullmatch_alpha :: "string \<Rightarrow> bool" where
  "fullmatch_alpha tok \<longleftrightarrow> tok \<noteq> [] \<and> list_all is_ascii_letter tok"

definition lemmatize_token :: "string \<Rightarrow> lemma_dict \<Rightarrow> string" where
  "lemmatize_token tok lemma_dict =
     (let key = str_lower tok
      in case lemma_dict key of
           Some l \<Rightarrow> l
         | None \<Rightarrow>
            (case FALLBACK_LEMMA_DICT key of
               Some l \<Rightarrow> l
             | None \<Rightarrow>
                if fullmatch_alpha tok then
                  if endswith key ''ies'' \<and> length key > 3 then drop_last 3 key @ ''y''
                  else if endswith key ''ing'' \<and> length key > 5 then drop_last 3 key
                  else if endswith key ''ed'' \<and> length key > 4 then drop_last 2 key
                  else if endswith key ''s'' \<and> length key > 3 \<and> \<not> endswith key ''ss''
                    then drop_last 1 key
                  else key
                else key))"

text \<open>The conditions of the four suffix rules, named for the statements about them.\<close>

definition ies_rule :: "string \<Rightarrow> bool" where
  "ies_rule key \<longleftrightarrow> endswith key ''ies'' \<and> length key > 3"

definition ing_rule :: "string \<Rightarrow> bool" where
  "ing_rule key \<longleftrightarrow> endswith key ''ing'' \<and> length key > 5"

definition ed_rule :: "string \<Rightarrow> bool" where
  "ed_rule key \<longleftrightarrow> endswith key ''ed'' \<and> length key > 4"

definition s_rule :: "string \<Rightarrow> bool" where
  "s_rule key \<longleftrightarrow> endswith key ''s'' \<and> length key > 3 \<and> \<not> endswith key ''ss''"

section \<open>Segmenter\<close>

text \<open>\<open>re.sub(r"\s+", " ", s)\<close>: every maximal run of whitespace becomes one space.\<close>

function collapse_ws :: "string \<Rightarrow> string" where
  "collapse_ws [] = []"
| "collapse_ws (c # cs) =
     (if is_space c then CHR '' '' # collapse_ws (dropWhile is_space cs)
      else c # collapse_ws cs)"
  by pat_completeness auto
termination
  by (relation "measure length") (auto simp: less_Suc_eq_le length_dropWhile_le)

text \<open>The classes \<open>[.!?]\<close> and \<open>[A-Z0-9"']\<close> of \<open>SENT_SPLIT_RE\<close>.\<close>

definition is_sent_end :: "char \<Rightarrow> bool" where
  "is_sent_end c \<longleftrightarrow> c = CHR ''.'' \<or> c = CHR ''!'' \<or> c = CHR ''?''"

definition is_sent_start :: "char \<Rightarrow> bool" where
  "is_sent_start c \<longleftrightarrow> is_ascii_upper c \<or> is_digit c \<or> c = CHR 0x22 \<or> c = CHR 0x27"

text \<open>
  \<open>SENT_SPLIT_RE.split(text)\<close>. A match of \<open>(?<=[.!?])\s+(?=[A-Z0-9"'])\<close> starts right
  after a character of \<open>[.!?]\<close> and is the maximal run of whitespace there (a shorter run
  is followed by whitespace, which the lookahead rejects); the run must be non-empty and
  followed by a character of the lookahead class. The pieces between the matches are
  returned; the empty string gives one empty piece, and the list of pieces is never empty.
\<close>

function sent_split :: "string \<Rightarrow> string list" where
  "sent_split [] = [[]]"
| "sent_split (c # cs) =
     (if is_sent_end c \<and> takeWhile is_space cs \<noteq> [] \<and>
         (case dropWhile is_space cs of [] \<Rightarrow> False | d # _ \<Rightarrow> is_sent_start d)
      then [c] # sent_split (dropWhile is_space cs)
      else (let pieces = sent_split cs in (c # hd pieces) # tl pieces))"
  by pat_completeness auto
termination
  by (relation "measure length") (auto simp: less_Suc_eq_le length_dropWhile_le)

definition sentence_segment :: "string \<Rightarrow> string list" where
  "sentence_segment text =
     (let text = collapse_ws (str_strip text)
      in if text \<noteq> [] then sent_split text else [])"

text \<open>
  The segmenter as the specification words it, to be compared with \<open>sentence_segment\<close>:
  collapse every run of whitespace to one space, then trim the ends; in the result, cut
  wherever one of \<open>.\<close>, \<open>!\<close>, \<open>?\<close> is followed by one whitespace character that is
  followed by a character that may start a sentence, dropping that whitespace character
  and leaving the punctuation mark at the end of the sentence before it. The class
  \<open>start\<close> of the characters that may start a sentence is a parameter.
\<close>

fun spec_split :: "(char \<Rightarrow> bool) \<Rightarrow> string \<Rightarrow> string list" where
  "spec_split start (p # s # c # rest) =
     (if (p = CHR ''.'' \<or> p = CHR ''!'' \<or> p = CHR ''?'') \<and> is_space s \<and> start c
      then [p] # spec_split start (c # rest)
      else (let pieces = spec_split start (s # c # rest) in (p # hd pieces) # tl pieces))"
| "spec_split start text = [text]"

definition spec_segment :: "(char \<Rightarrow> bool) \<Rightarrow> string \<Rightarrow> string list" where
  "spec_segment start text =
     (let normalized = str_strip (collapse_ws text)
      in if normalized = [] then [] else spec_split start normalized)"

text \<open>
  The specification's class: an uppercase letter, a digit, or a quote character. The
  uppercase letters among the code points below 256 are \<open>A\<close> to \<open>Z\<close> and the
  letters 192 to 222 of the Latin-1 block without the multiplication sign 215
  (\<open>str.isupper\<close>); the digits are \<open>0\<close> to \<open>9\<close>, the quote characters \<open>"\<close> and \<open>'\<close>.
\<close>

definition is_upper_letter :: "char \<Rightarrow> bool" where
  "is_upper_letter c \<longleftrightarrow>
     is_ascii_upper c \<or> (192 \<le> code_point c \<and> code_point c \<le> 222 \<and> code_point c \<noteq> 215)"

definition claimed_start :: "char \<Rightarrow> bool" where
  "claimed_start c \<longleftrightarrow> is_upper_letter c \<or> is_digit c \<or> c = CHR 0x22 \<or> c = CHR 0x27"

text \<open>A string in which no two whitespace characters are adjacent.\<close>

fun single_spaced :: "string \<Rightarrow> bool" where
  "single_spaced (c # d # rest) \<longleftrightarrow> \<not> (is_space c \<and> is_space d) \<and> single_spaced (d # rest)"
| "single_spaced text \<longleftrightarrow> True"

section \<open>Tokenizer\<close>

text \<open>
  One match of \<open>p+(?:sep p+)?\<close> at the start of a string whose first character is in the
  class \<open>p\<close>: the token matched and the rest of the string.
\<close>

definition match_run :: "(char \<Rightarrow> bool) \<Rightarrow> char \<Rightarrow> string \<Rightarrow> string \<times> string" where
  "match_run p sep s =
     (let w = takeWhile p s; r = dropWhile p s
      in case r of
           [] \<Rightarrow> (w, r)
         | q # r' \<Rightarrow>
             if q = sep \<and> takeWhile p r' \<noteq> []
             then (w @ q # takeWhile p r', dropWhile p r') else (w, r))"

text \<open>
  \<open>TOKEN_RE.findall(sentence)\<close> with
  \<open>TOKEN_RE = [A-Za-z]+(?:'[A-Za-z]+)?|\d+(?:\.\d+)?|[^\s]\<close>: scanning from the left,
  the first alternative that matches at a position gives the token; whitespace matches
  no alternative and is skipped.
\<close>

function tokenize :: "string \<Rightarrow> string list" where
  "tokenize [] = []"
| "tokenize (c # cs) =
     (if is_ascii_letter c then
        fst (match_run is_ascii_letter (CHR 0x27) (c # cs)) #
        tokenize (snd (match_run is_ascii_letter (CHR 0x27) (c # cs)))
      else if is_digit c then
        fst (match_run is_digit (CHR ''.'') (c # cs)) #
        tokenize (snd (match_run is_digit (CHR ''.'') (c # cs)))
      else if is_space c then tokenize cs
      else [c] # tokenize cs)"
  by pat_completeness auto
termination
proof (relation "measure length")
  have shorter: "length (snd (match_run p sep (c # cs))) < length (c # cs)"
    if "p c" for p sep c cs
  proof -
    have bound: "length (snd (match_run p sep s)) \<le> length (dropWhile p s)" for s
    proof (cases "dropWhile p s")
      case Nil
      show ?thesis unfolding match_run_def Let_def Nil by simp
    next
      case (Cons q r')
      have "length (dropWhile p r') \<le> length r'"
        by (rule length_dropWhile_le)
      then show ?thesis unfolding match_run_def Let_def Cons by simp
    qed
    have "length (dropWhile p (c # cs)) \<le> length cs"
      using that by (simp add: length_dropWhile_le)
    with bound [of "c # cs"] show ?thesis by simp
  qed
  show "wf (measure length)" by simp
  show "(snd (match_run is_ascii_letter (CHR 0x27) (c # cs)), c # cs) \<in> measure length"
    if "is_ascii_letter c" for c cs
    using shorter [of is_ascii_letter c "CHR 0x27" cs] that by simp
  show "(snd (match_run is_digit (CHR ''.'') (c # cs)), c # cs) \<in> measure length"
    if "\<not> is_ascii_letter c" "is_digit c" for c cs
    using shorter [of is_digit c "CHR ''.''" cs] that by simp
  show "(cs, c # cs) \<in> measure length" for c :: char and cs
    by simp
  show "(cs, c # cs) \<in> measure length" for c :: char and cs
    by simp
qed

section \<open>Stop-word filter\<close>

definition DEFAULT_STOPWORDS :: "string set" where
  "DEFAULT_STOPWORDS = set
     [''a'', ''an'', ''the'', ''and'', ''or'', ''but'', ''if'', ''then'', ''else'', ''for'',
      ''to'', ''of'', ''in'', ''on'', ''at'', ''by'', ''with'', ''as'', ''is'', ''are'',
      ''was'', ''were'', ''be'', ''been'', ''being'', ''this'', ''that'', ''these'',
      ''those'', ''it'', ''its'', ''they'', ''their'', ''we'', ''our'', ''you'', ''your'',
      ''i'', ''me'', ''my'', ''he'', ''she'', ''him'', ''her'', ''them'', ''from'', ''can'',
      ''could'', ''may'', ''might'', ''will'', ''would'', ''should'', ''do'', ''does'',
      ''did'', ''not'', ''so'', ''many'', ''often'', ''each'', ''after'', ''before'',
      ''still'']"

definition is_stopword :: "string \<Rightarrow> bool" where
  "is_stopword tok \<longleftrightarrow> str_lower tok \<in> DEFAULT_STOPWORDS"

section \<open>POS classifier\<close>

definition VALID_POS :: "string list" where
  "VALID_POS = [''NOUN'', ''VERB'', ''ADJ'', ''ADV'', ''PRON'', ''DET'', ''ADP'', ''CONJ'',
     ''NUM'', ''PUNCT'', ''OTHER'']"

definition COMMON_DET :: "string set" where
  "COMMON_DET = set [''a'', ''an'', ''the'', ''this'', ''that'', ''these'', ''those'']"

definition COMMON_ADP :: "string set" where
  "COMMON_ADP = set [''in'', ''on'', ''at'', ''by'', ''with'', ''for'', ''to'', ''of'',
     ''from'', ''as'']"

definition COMMON_CONJ :: "string set" where
  "COMMON_CONJ = set [''and'', ''or'', ''but'']"

definition COMMON_PRON :: "string set" where
  "COMMON_PRON = set [''i'', ''me'', ''my'', ''you'', ''your'', ''he'', ''him'', ''her'',
     ''she'', ''it'', ''its'', ''we'', ''our'', ''they'', ''them'', ''their'']"

text \<open>\<open>re.fullmatch(r"[^\w\s]", tok)\<close>.\<close>

definition fullmatch_punct :: "string \<Rightarrow> bool" where
  "fullmatch_punct tok \<longleftrightarrow>
     (case tok of [c] \<Rightarrow> \<not> is_word c \<and> \<not> is_space c | _ \<Rightarrow> False)"

text \<open>
  \<open>re.fullmatch\<close> of \<open>p+(?:sep p+)?\<close>: a non-empty run of the class, alone or followed
  by the separator and a second non-empty run that ends the string.
\<close>

definition fullmatch_run :: "(char \<Rightarrow> bool) \<Rightarrow> char \<Rightarrow> string \<Rightarrow> bool" where
  "fullmatch_run p sep tok \<longleftrightarrow>
     takeWhile p tok \<noteq> [] \<and>
     (case dropWhile p tok of
        [] \<Rightarrow> True
      | q # r \<Rightarrow> q = sep \<and> r \<noteq> [] \<and> list_all p r)"

definition heuristic_pos :: "string \<Rightarrow> string" where
  "heuristic_pos tok =
     (let t = str_lower tok
      in if fullmatch_punct tok then ''PUNCT''
         else if fullmatch_run is_digit (CHR ''.'') tok then ''NUM''
         else if t \<in> COMMON_DET then ''DET''
         else if t \<in> COMMON_ADP then ''ADP''
         else if t \<in> COMMON_CONJ then ''CONJ''
         else if t \<in> COMMON_PRON then ''PRON''
         else if endswith t ''ly'' then ''ADV''
         else if list_ex (endswith t)
                   [''ous'', ''ful'', ''able'', ''ible'', ''al'', ''ive'', ''ic'', ''y''] \<and>
                 length t > 3 then ''ADJ''
         else if list_ex (endswith t) [''ing'', ''ed''] then ''VERB''
         else if fullmatch_run is_ascii_letter (CHR 0x27) tok then ''NOUN''
         else ''OTHER'')"

subsection \<open>Manual mode\<close>

text \<open>
  The world the manual tagger acts on: the file at the storage path, the lines still to be
  read from standard input, and the log of what has been done. The file is absent, or
  holds text that \<open>json.loads\<close> rejects, or holds a JSON object of strings, modelled as
  the dictionary it parses to; \<open>json.dumps\<close> followed by \<open>json.loads\<close> gives such a
  dictionary back as it was. \<open>input\<close> raises \<open>EOFError\<close> when standard input is
  exhausted; reading and writing the file are taken not to fail.
\<close>

type_synonym tag_cache = "string \<rightharpoonup> string"

datatype store_file = Missing | Unparsable | Parsed tag_cache

datatype event = EvRead | EvPrompt string | EvWrite

datatype py_error = EOFError | IndexError

record world =
  store :: store_file
  stdin :: "string list"
  events :: "event list"

type_synonym tagged = "string \<times> string \<times> string"

text \<open>The \<open>for tok in tokens\<close> loop of \<open>manual_pos_tag\<close>, on the dictionary \<open>stored\<close>.\<close>

fun manual_loop ::
  "string list \<Rightarrow> tag_cache \<Rightarrow> world \<Rightarrow> py_error + (tagged list \<times> tag_cache \<times> world)" where
  "manual_loop [] stored w = Inr ([], stored, w)"
| "manual_loop (tok # toks) stored w =
     (let key = str_lower tok
      in case stored key of
           Some p \<Rightarrow>
             (case manual_loop toks stored w of
                Inl e \<Rightarrow> Inl e
              | Inr (out, stored', w') \<Rightarrow> Inr ((tok, p, ''manual(cache)'') # out, stored', w'))
         | None \<Rightarrow>
             if fullmatch_punct tok then
               (case manual_loop toks (stored(key \<mapsto> ''PUNCT'')) w of
                  Inl e \<Rightarrow> Inl e
                | Inr (out, stored', w') \<Rightarrow>
                    Inr ((tok, ''PUNCT'', ''manual(auto-punct)'') # out, stored', w'))
             else
               (case stdin w of
                  [] \<Rightarrow> Inl EOFError
                | answer # answers \<Rightarrow>
                    (let choice = str_upper (str_strip answer);
                         choice = (if choice \<notin> set VALID_POS then ''OTHER'' else choice)
                     in case manual_loop toks (stored(key \<mapsto> choice))
                               (w\<lparr>stdin := answers, events := events w @ [EvPrompt tok]\<rparr>) of
                          Inl e \<Rightarrow> Inl e
                        | Inr (out, stored', w') \<Rightarrow>
                            Inr ((tok, choice, ''manual'') # out, stored', w'))))"

text \<open>The tag that the loop stores for an answer read from standard input.\<close>

definition coerce :: "string \<Rightarrow> string" where
  "coerce answer =
     (let choice = str_upper (str_strip answer)
      in if choice \<notin> set VALID_POS then ''OTHER'' else choice)"

definition load_store :: "world \<Rightarrow> tag_cache \<times> world" where
  "load_store w =
     (case store w of
        Missing \<Rightarrow> (Map.empty, w)
      | Unparsable \<Rightarrow> (Map.empty, w\<lparr>events := events w @ [EvRead]\<rparr>)
      | Parsed m \<Rightarrow> (m, w\<lparr>events := events w @ [EvRead]\<rparr>))"

definition manual_pos_tag :: "string list \<Rightarrow> world \<Rightarrow> py_error + (tagged list \<times> world)" where
  "manual_pos_tag tokens w =
     (case load_store w of
        (stored, w1) \<Rightarrow>
          (case manual_loop tokens stored w1 of
             Inl e \<Rightarrow> Inl e
           | Inr (out, stored', w2) \<Rightarrow>
               Inr (out, w2\<lparr>store := Parsed stored', events := events w2 @ [EvWrite]\<rparr>)))"

text \<open>
  Readings of a world and of its log: the dictionary a call of \<open>manual_pos_tag\<close> would
  start from, the tokens the user was asked about, and how often the user was asked about
  a lowercased form.
\<close>

definition cache_of :: "world \<Rightarrow> tag_cache" where
  "cache_of w = fst (load_store w)"

fun prompted :: "event list \<Rightarrow> string list" where
  "prompted [] = []"
| "prompted (EvPrompt tok # es) = tok # prompted es"
| "prompted (e # es) = prompted es"

definition prompt_count :: "string \<Rightarrow> event list \<Rightarrow> nat" where
  "prompt_count key es = count_list (map str_lower (prompted es)) key"

section \<open>Pipeline orchestrator\<close>

record row =
  row_sid :: nat
  row_sent :: string
  row_tok :: string
  row_pos :: string
  row_src :: string
  row_lemma :: string
  row_removed :: bool

definition make_row :: "nat \<Rightarrow> string \<Rightarrow> lemma_dict \<Rightarrow> tagged \<Rightarrow> row" where
  "make_row si sent lemma_dict tg =
     (case tg of
        (tok, pos, pos_src) \<Rightarrow>
          \<lparr>row_sid = si, row_sent = sent, row_tok = tok, row_pos = pos, row_src = pos_src,
           row_lemma = lemmatize_token tok lemma_dict,
           row_removed = (is_stopword tok \<or> pos = ''PUNCT'')\<rparr>)"

text \<open>The \<open>for si, sent in enumerate(..., start=1)\<close> loop of \<open>run_pipeline\<close>.\<close>

fun pipeline_loop ::
  "(nat \<times> string) list \<Rightarrow> lemma_dict \<Rightarrow> string \<Rightarrow> world \<Rightarrow>
     py_error + (row list list \<times> world)" where
  "pipeline_loop [] lemma_dict pos_mode w = Inr ([], w)"
| "pipeline_loop ((si, sent) # rest) lemma_dict pos_mode w =
     (let tokens = tokenize sent
      in case (if pos_mode = ''manual'' then manual_pos_tag tokens w
               else Inr (map (\<lambda>t. (t, heuristic_pos t, ''heuristic'')) tokens, w)) of
           Inl e \<Rightarrow> Inl e
         | Inr (tagged, w1) \<Rightarrow>
             (case pipeline_loop rest lemma_dict pos_mode w1 of
                Inl e \<Rightarrow> Inl e
              | Inr (results, w2) \<Rightarrow>
                  Inr (map (make_row si sent lemma_dict) tagged # results, w2)))"

definition run_pipeline ::
  "string \<Rightarrow> lemma_dict \<Rightarrow> string \<Rightarrow> world \<Rightarrow> py_error + (row list list \<times> world)" where
  "run_pipeline text lemma_dict pos_mode w =
     pipeline_loop (enumerate 1 (sentence_segment text)) lemma_dict pos_mode w"

text \<open>The rows of a completed run in document order, and the world it ends in.\<close>

definition rows_of :: "py_error + (row list list \<times> world) \<Rightarrow> row list" where
  "rows_of r = (case r of Inl e \<Rightarrow> [] | Inr (results, w) \<Rightarrow> concat results)"

definition world_of :: "py_error + (row list list \<times> world) \<Rightarrow> world option" where
  "world_of r = (case r of Inl e \<Rightarrow> None | Inr (results, w) \<Rightarrow> Some w)"

section \<open>Report writer\<close>

text \<open>\<open>str\<close> of a natural number and of a truth value, as the f-strings format them.\<close>

fun str_nat :: "nat \<Rightarrow> string" where
  "str_nat n =
     (if n < 10 then [char_of (48 + n)]
      else str_nat (n div 10) @ [char_of (48 + n mod 10)])"

definition str_bool :: "bool \<Rightarrow> string" where
  "str_bool b = (if b then ''True'' else ''False'')"

definition row_line :: "row \<Rightarrow> string" where
  "row_line r =
     row_tok r @ [CHR 0x09] @ row_pos r @ [CHR 0x09] @ row_lemma r @ [CHR 0x09] @
     str_bool (row_removed r)"

text \<open>
  The lines of \<open>write_tsv\<close>; \<open>sent_rows[0]\<close> raises \<open>IndexError\<close> on an empty list of
  rows.
\<close>

fun tsv_lines :: "row list list \<Rightarrow> py_error + string list" where
  "tsv_lines [] = Inr []"
| "tsv_lines (sent_rows # rest) =
     (case sent_rows of
        [] \<Rightarrow> Inl IndexError
      | r0 # _ \<Rightarrow>
          (case tsv_lines rest of
             Inl e \<Rightarrow> Inl e
           | Inr ls \<Rightarrow>
               Inr ([''Sentence '' @ str_nat (row_sid r0) @ '': '' @ row_sent r0,
                     ''token'' @ [CHR 0x09] @ ''pos'' @ [CHR 0x09] @ ''lemma'' @ [CHR 0x09] @
                     ''removed''] @
                    map row_line sent_rows @ [[]] @ ls)))"

text \<open>\<open>"\n".join(lines)\<close>.\<close>

fun join_lines :: "string list \<Rightarrow> string" where
  "join_lines [] = []"
| "join_lines [l] = l"
| "join_lines (l # ls) = l @ [CHR 0x0A] @ join_lines ls"

text \<open>\<open>write_tsv\<close>: the text written to the output path.\<close>

definition write_tsv :: "row list list \<Rightarrow> py_error + string" where
  "write_tsv results =
     (case tsv_lines results of Inl e \<Rightarrow> Inl e | Inr ls \<Rightarrow> Inr (join_lines ls))"

section \<open>Basic facts\<close>

lemmas char_defs = code_point_def is_space_def is_digit_def is_ascii_upper_def
  is_ascii_lower_def is_ascii_letter_def is_word_def lower_char_def upper_char_def

lemmas str_defs = str_lower_def str_upper_def str_strip_def endswith_def startswith_def
  drop_last_def

lemmas eval_simps = char_defs str_defs char_of_def bit_Suc_0_iff

subsection \<open>Unfolding the lemmatizer\<close>

lemmas rule_defs = ies_rule_def ing_rule_def ed_rule_def s_rule_def

lemma lemmatize_token_dict:
  "d (str_lower tok) = Some l \<Longrightarrow> lemmatize_token tok d = l"
  by (simp add: lemmatize_token_def)

lemma lemmatize_token_fallback:
  "d (str_lower tok) = None \<Longrightarrow> FALLBACK_LEMMA_DICT (str_lower tok) = Some l \<Longrightarrow>
   lemmatize_token tok d = l"
  by (simp add: lemmatize_token_def)

lemma lemmatize_token_rules:
  "d (str_lower tok) = None \<Longrightarrow> FALLBACK_LEMMA_DICT (str_lower tok) = None \<Longrightarrow>
   lemmatize_token tok d =
     (if fullmatch_alpha tok then
        if ies_rule (str_lower tok) then drop_last 3 (str_lower tok) @ ''y''
        else if ing_rule (str_lower tok) then drop_last 3 (str_lower tok)
        else if ed_rule (str_lower tok) then drop_last 2 (str_lower tok)
        else if s_rule (str_lower tok) then drop_last 1 (str_lower tok)
        else str_lower tok
      else str_lower tok)"
  by (simp add: lemmatize_token_def Let_def rule_defs)

section \<open>Lemmatizer: idempotence\<close>

text \<open>
  Claim C3, as stated: for every token, applying \<open>lemmatize_token\<close> to its own result
  gives that result again. This fails: with no external dictionary, \<open>meanings\<close> resolves
  through the fallback dictionary to \<open>meaning\<close>, which the \<open>ing\<close> rule then shortens
  to \<open>mean\<close>.
\<close>

theorem lemmatize_token_idempotent_counterexample:
  "lemmatize_token (lemmatize_token ''meanings'' Map.empty) Map.empty
     \<noteq> lemmatize_token ''meanings'' Map.empty"
  by (simp add: lemmatize_token_def FALLBACK_LEMMA_DICT_def fullmatch_alpha_def eval_simps)

text \<open>
  A suffix rule that applies changes the length of the key, and a string of
  \<open>[A-Za-z]+\<close> is as long as its lowercased form.
\<close>

lemma rule_result_differs:
  "ies_rule key \<Longrightarrow> length (drop_last 3 key @ ''y'') \<noteq> length key"
  "ing_rule key \<Longrightarrow> length (drop_last 3 key) \<noteq> length key"
  "ed_rule key \<Longrightarrow> length (drop_last 2 key) \<noteq> length key"
  "s_rule key \<Longrightarrow> length (drop_last 1 key) \<noteq> length key"
  by (auto simp: rule_defs drop_last_def)

lemma lemmatize_token_fixed_iff:
  "lemmatize_token r d = r \<longleftrightarrow>
     d (str_lower r) = Some r \<or>
     d (str_lower r) = None \<and> FALLBACK_LEMMA_DICT (str_lower r) = Some r \<or>
     d (str_lower r) = None \<and> FALLBACK_LEMMA_DICT (str_lower r) = None \<and> str_lower r = r \<and>
       \<not> (fullmatch_alpha r \<and> (ies_rule r \<or> ing_rule r \<or> ed_rule r \<or> s_rule r))"
proof (cases "d (str_lower r)")
  case (Some l)
  then show ?thesis by (auto simp: lemmatize_token_dict)
next
  case None
  note d_None = this
  show ?thesis
  proof (cases "FALLBACK_LEMMA_DICT (str_lower r)")
    case (Some l)
    with d_None show ?thesis by (auto simp: lemmatize_token_fallback)
  next
    case None
    note rules = lemmatize_token_rules [of d r, OF d_None None]
    show ?thesis
    proof (cases "fullmatch_alpha r \<and>
        (ies_rule (str_lower r) \<or> ing_rule (str_lower r) \<or> ed_rule (str_lower r) \<or>
         s_rule (str_lower r))")
      case True
      then have len: "length (str_lower r) = length r"
        by (simp add: str_lower_def)
      from True have "length (lemmatize_token r d) \<noteq> length (str_lower r)"
        unfolding rules using rule_result_differs [of "str_lower r"] by auto
      with len have ne: "lemmatize_token r d \<noteq> r" by auto
      have "\<not> (str_lower r = r \<and>
         \<not> (fullmatch_alpha r \<and> (ies_rule r \<or> ing_rule r \<or> ed_rule r \<or> s_rule r)))"
        using True by auto
      with ne d_None None show ?thesis by simp
    next
      case False
      then have res: "lemmatize_token r d = str_lower r"
        unfolding rules by auto
      show ?thesis
      proof (cases "str_lower r = r")
        case True
        with False res d_None None show ?thesis by auto
      next
        case False
        with res d_None None show ?thesis by auto
      qed
    qed
  qed
qed

text \<open>
  Claim C3, amended: lemmatization is idempotent at a token exactly when the lemma
  \<open>r\<close> it returns is settled, that is: the supplied dictionary maps the lowercased
  \<open>r\<close> to \<open>r\<close>; or it has no entry for it and the fallback dictionary maps it to
  \<open>r\<close>; or neither has an entry for it, \<open>r\<close> is its own lowercased form, and \<open>r\<close>
  is not a string of \<open>[A-Za-z]+\<close> to which a suffix rule applies. So it is idempotent at
  \<open>computer\<close> and at \<open>computers\<close> (lemma \<open>computer\<close>), and not at \<open>meanings\<close>
  (lemma \<open>meaning\<close>, which the \<open>ing\<close> rule cuts).
\<close>

theorem lemmatize_token_idempotent_iff:
  "(let r = lemmatize_token tok d
    in lemmatize_token r d = r \<longleftrightarrow>
         d (str_lower r) = Some r \<or>
         d (str_lower r) = None \<and> FALLBACK_LEMMA_DICT (str_lower r) = Some r \<or>
         d (str_lower r) = None \<and> FALLBACK_LEMMA_DICT (str_lower r) = None \<and>
         str_lower r = r \<and>
         \<not> (fullmatch_alpha r \<and> (ies_rule r \<or> ing_rule r \<or> ed_rule r \<or> s_rule r)))"
  unfolding Let_def by (rule lemmatize_token_fixed_iff)

theorem lemmatize_token_idempotent_iff_witness:
  "lemmatize_token ''Computers'' Map.empty = ''computer'' \<and>
   Map.empty (str_lower ''computer'') = (None :: string option) \<and>
   FALLBACK_LEMMA_DICT (str_lower ''computer'') = None \<and>
   str_lower ''computer'' = ''computer'' \<and>
   \<not> (fullmatch_alpha ''computer'' \<and>
      (ies_rule ''computer'' \<or> ing_rule ''computer'' \<or> ed_rule ''computer'' \<or>
       s_rule ''computer'')) \<and>
   lemmatize_token (lemmatize_token ''Computers'' Map.empty) Map.empty =
     lemmatize_token ''Computers'' Map.empty"
proof -
  have r: "lemmatize_token ''Computers'' Map.empty = ''computer''"
    by (simp add: lemmatize_token_def FALLBACK_LEMMA_DICT_def eval_simps)
  have settled: "Map.empty (str_lower ''computer'') = (None :: string option) \<and>
     FALLBACK_LEMMA_DICT (str_lower ''computer'') = None \<and>
     str_lower ''computer'' = ''computer'' \<and>
     \<not> (fullmatch_alpha ''computer'' \<and>
        (ies_rule ''computer'' \<or> ing_rule ''computer'' \<or> ed_rule ''computer'' \<or>
         s_rule ''computer''))"
    by (simp add: FALLBACK_LEMMA_DICT_def rule_defs eval_simps)
  from lemmatize_token_idempotent_iff [of "''Computers''" Map.empty] settled
  have "lemmatize_token (lemmatize_token ''Computers'' Map.empty) Map.empty =
     lemmatize_token ''Computers'' Map.empty"
    unfolding Let_def r by blast
  with r settled show ?thesis by blast
qed

section \<open>Lemmatizer: resolution order\<close>

text \<open>
  Claim C5: \<open>lemmatize_token\<close> resolves a token in a fixed order, the first match
  winning: the entry of the lowercased token in the supplied dictionary; else its entry in
  the built-in fallback dictionary; else, for a token of \<open>[A-Za-z]+\<close> only, the first
  applicable suffix rule among \<open>ies\<close> (length above 3, replaced by \<open>y\<close>), \<open>ing\<close>
  (length above 5, stripped), \<open>ed\<close> (length above 4, stripped) and a final \<open>s\<close> (length
  above 3, not \<open>ss\<close>, stripped); else the lowercased token itself. With no external
  dictionary, \<open>running\<close> resolves to \<open>run\<close> through its fallback entry.
\<close>

theorem lemmatize_token_resolution_order:
  "(d (str_lower tok) = Some l \<longrightarrow> lemmatize_token tok d = l) \<and>
   (d (str_lower tok) = None \<and> FALLBACK_LEMMA_DICT (str_lower tok) = Some l \<longrightarrow>
      lemmatize_token tok d = l) \<and>
   (d (str_lower tok) = None \<and> FALLBACK_LEMMA_DICT (str_lower tok) = None \<and>
    fullmatch_alpha tok \<longrightarrow>
      (ies_rule (str_lower tok) \<and> str_lower tok = stem @ ''ies'' \<longrightarrow>
         lemmatize_token tok d = stem @ ''y'') \<and>
      (\<not> ies_rule (str_lower tok) \<and> ing_rule (str_lower tok) \<and>
       str_lower tok = stem @ ''ing'' \<longrightarrow> lemmatize_token tok d = stem) \<and>
      (\<not> ies_rule (str_lower tok) \<and> \<not> ing_rule (str_lower tok) \<and> ed_rule (str_lower tok) \<and>
       str_lower tok = stem @ ''ed'' \<longrightarrow> lemmatize_token tok d = stem) \<and>
      (\<not> ies_rule (str_lower tok) \<and> \<not> ing_rule (str_lower tok) \<and>
       \<not> ed_rule (str_lower tok) \<and> s_rule (str_lower tok) \<and>
       str_lower tok = stem @ ''s'' \<longrightarrow> lemmatize_token tok d = stem) \<and>
      (\<not> ies_rule (str_lower tok) \<and> \<not> ing_rule (str_lower tok) \<and>
       \<not> ed_rule (str_lower tok) \<and> \<not> s_rule (str_lower tok) \<longrightarrow>
         lemmatize_token tok d = str_lower tok)) \<and>
   (d (str_lower tok) = None \<and> FALLBACK_LEMMA_DICT (str_lower tok) = None \<and>
    \<not> fullmatch_alpha tok \<longrightarrow> lemmatize_token tok d = str_lower tok) \<and>
   FALLBACK_LEMMA_DICT ''running'' = Some ''run'' \<and>
   lemmatize_token ''running'' Map.empty = ''run''"
proof -
  let ?key = "str_lower tok"
  have c1: "d ?key = Some l \<longrightarrow> lemmatize_token tok d = l"
    by (simp add: lemmatize_token_dict)
  have c2: "d ?key = None \<and> FALLBACK_LEMMA_DICT ?key = Some l \<longrightarrow> lemmatize_token tok d = l"
    by (simp add: lemmatize_token_fallback)
  have c3: "lemmatize_token tok d = stem @ ''y''"
    if "d ?key = None" "FALLBACK_LEMMA_DICT ?key = None" "fullmatch_alpha tok"
       "ies_rule ?key" "?key = stem @ ''ies''"
  proof -
    have "drop_last 3 ?key = stem"
      using that(5) by (simp add: drop_last_def)
    then show ?thesis
      using that lemmatize_token_rules [of d tok] by simp
  qed
  have c4: "lemmatize_token tok d = stem"
    if "d ?key = None" "FALLBACK_LEMMA_DICT ?key = None" "fullmatch_alpha tok"
       "\<not> ies_rule ?key" "ing_rule ?key" "?key = stem @ ''ing''"
  proof -
    have "drop_last 3 ?key = stem"
      using that(6) by (simp add: drop_last_def)
    then show ?thesis
      using that(1-5) lemmatize_token_rules [of d tok] by simp
  qed
  have c5: "lemmatize_token tok d = stem"
    if "d ?key = None" "FALLBACK_LEMMA_DICT ?key = None" "fullmatch_alpha tok"
       "\<not> ies_rule ?key" "\<not> ing_rule ?key" "ed_rule ?key" "?key = stem @ ''ed''"
  proof -
    have "drop_last 2 ?key = stem"
      using that(7) by (simp add: drop_last_def)
    then show ?thesis
      using that(1-6) lemmatize_token_rules [of d tok] by simp
  qed
  have c6: "lemmatize_token tok d = stem"
    if "d ?key = None" "FALLBACK_LEMMA_DICT ?key = None" "fullmatch_alpha tok"
       "\<not> ies_rule ?key" "\<not> ing_rule ?key" "\<not> ed_rule ?key" "s_rule ?key"
       "?key = stem @ ''s''"
  proof -
    have "drop_last 1 ?key = stem"
      using that(8) by (simp add: drop_last_def)
    then show ?thesis
      using that(1-7) lemmatize_token_rules [of d tok] by simp
  qed
  have c7: "lemmatize_token tok d = ?key"
    if "d ?key = None" "FALLBACK_LEMMA_DICT ?key = None" "fullmatch_alpha tok"
       "\<not> ies_rule ?key" "\<not> ing_rule ?key" "\<not> ed_rule ?key" "\<not> s_rule ?key"
    using that lemmatize_token_rules [of d tok] by simp
  have c8: "d ?key = None \<and> FALLBACK_LEMMA_DICT ?key = None \<and> \<not> fullmatch_alpha tok \<longrightarrow>
      lemmatize_token tok d = ?key"
    using lemmatize_token_rules [of d tok] by simp
  have c9: "FALLBACK_LEMMA_DICT ''running'' = Some ''run''"
    by (simp add: FALLBACK_LEMMA_DICT_def)
  have c10: "lemmatize_token ''running'' Map.empty = ''run''"
    by (simp add: lemmatize_token_def FALLBACK_LEMMA_DICT_def eval_simps)
  from c1 c2 c3 c4 c5 c6 c7 c8 c9 c10 show ?thesis by blast
qed

theorem lemmatize_token_resolution_order_witness:
  "Map.empty (str_lower ''Ladies'') = (None :: string option) \<and>
   FALLBACK_LEMMA_DICT (str_lower ''Ladies'') = None \<and>
   fullmatch_alpha ''Ladies'' \<and> ies_rule (str_lower ''Ladies'') \<and>
   str_lower ''Ladies'' = ''lad'' @ ''ies'' \<and>
   lemmatize_token ''Ladies'' Map.empty = ''lad'' @ ''y''"
proof -
  have h: "Map.empty (str_lower ''Ladies'') = (None :: string option) \<and>
     FALLBACK_LEMMA_DICT (str_lower ''Ladies'') = None \<and>
     fullmatch_alpha ''Ladies'' \<and> ies_rule (str_lower ''Ladies'') \<and>
     str_lower ''Ladies'' = ''lad'' @ ''ies''"
    by (simp add: FALLBACK_LEMMA_DICT_def fullmatch_alpha_def ies_rule_def eval_simps)
  from lemmatize_token_resolution_order
         [where d = Map.empty and tok = "''Ladies''" and stem = "''lad''"] h
  show ?thesis by blast
qed

section \<open>Facts about the manual tagging loop\<close>

lemma manual_loop_Cons_cases:
  assumes "manual_loop (tok # toks) stored w = Inr (out, stored', w')"
  obtains
    (cached) p rest where
      "stored (str_lower tok) = Some p"
      "manual_loop toks stored w = Inr (rest, stored', w')"
      "out = (tok, p, ''manual(cache)'') # rest"
  | (punct) rest where
      "stored (str_lower tok) = None" "fullmatch_punct tok"
      "manual_loop toks (stored(str_lower tok \<mapsto> ''PUNCT'')) w = Inr (rest, stored', w')"
      "out = (tok, ''PUNCT'', ''manual(auto-punct)'') # rest"
  | (asked) answer answers rest where
      "stored (str_lower tok) = None" "\<not> fullmatch_punct tok"
      "stdin w = answer # answers"
      "manual_loop toks (stored(str_lower tok \<mapsto> coerce answer))
         (w\<lparr>stdin := answers, events := events w @ [EvPrompt tok]\<rparr>) = Inr (rest, stored', w')"
      "out = (tok, coerce answer, ''manual'') # rest"
proof (cases "stored (str_lower tok)")
  case (Some p)
  with assms obtain rest where
    "manual_loop toks stored w = Inr (rest, stored', w')"
    "out = (tok, p, ''manual(cache)'') # rest"
    by (auto simp: Let_def split: sum.splits)
  with Some show ?thesis by (rule cached)
next
  case None
  show ?thesis
  proof (cases "fullmatch_punct tok")
    case True
    with None assms obtain rest where
      "manual_loop toks (stored(str_lower tok \<mapsto> ''PUNCT'')) w = Inr (rest, stored', w')"
      "out = (tok, ''PUNCT'', ''manual(auto-punct)'') # rest"
      by (auto simp: Let_def split: sum.splits)
    with None True show ?thesis by (rule punct)
  next
    case False
    with None assms obtain answer answers where st: "stdin w = answer # answers"
      by (cases "stdin w") (auto simp: Let_def)
    with None False assms obtain rest where
      "manual_loop toks (stored(str_lower tok \<mapsto> coerce answer))
         (w\<lparr>stdin := answers, events := events w @ [EvPrompt tok]\<rparr>) = Inr (rest, stored', w')"
      "out = (tok, coerce answer, ''manual'') # rest"
      by (auto simp: Let_def coerce_def split: sum.splits)
    with None False st show ?thesis by (rule asked)
  qed
qed

lemma manual_loop_tokens:
  "manual_loop toks stored w = Inr (out, stored', w') \<Longrightarrow> map fst out = toks"
proof (induction toks arbitrary: stored w out)
  case Nil
  then show ?case by simp
next
  case (Cons tok toks)
  from Cons.prems show ?case
    by (cases rule: manual_loop_Cons_cases) (auto dest: Cons.IH)
qed

lemma manual_loop_mono:
  "manual_loop toks stored w = Inr (out, stored', w') \<Longrightarrow> stored k = Some v \<Longrightarrow>
   stored' k = Some v"
proof (induction toks arbitrary: stored w out)
  case Nil
  then show ?case by simp
next
  case (Cons tok toks)
  from Cons.prems(1) show ?case
  proof (cases rule: manual_loop_Cons_cases)
    case (cached p rest)
    then show ?thesis using Cons.IH Cons.prems(2) by blast
  next
    case (punct rest)
    with Cons.prems(2) have "(stored(str_lower tok \<mapsto> ''PUNCT'')) k = Some v" by auto
    with punct(3) show ?thesis by (rule Cons.IH)
  next
    case (asked answer answers rest)
    with Cons.prems(2) have "(stored(str_lower tok \<mapsto> coerce answer)) k = Some v" by auto
    with asked(4) show ?thesis by (rule Cons.IH)
  qed
qed

lemma manual_loop_pos:
  "manual_loop toks stored w = Inr (out, stored', w') \<Longrightarrow> (tok, p, src) \<in> set out \<Longrightarrow>
   stored' (str_lower tok) = Some p"
proof (induction toks arbitrary: stored w out)
  case Nil
  then show ?case by simp
next
  case (Cons t toks)
  from Cons.prems(1) show ?case
  proof (cases rule: manual_loop_Cons_cases)
    case (cached q rest)
    with Cons.prems(2) Cons.IH manual_loop_mono show ?thesis by fastforce
  next
    case (punct rest)
    show ?thesis
    proof (cases "(tok, p, src) \<in> set rest")
      case True
      with punct(3) show ?thesis by (rule Cons.IH)
    next
      case False
      with punct Cons.prems(2) have "tok = t" "p = ''PUNCT''" by auto
      then show ?thesis using manual_loop_mono [OF punct(3)] by simp
    qed
  next
    case (asked answer answers rest)
    show ?thesis
    proof (cases "(tok, p, src) \<in> set rest")
      case True
      with asked(4) show ?thesis by (rule Cons.IH)
    next
      case False
      with asked Cons.prems(2) have "tok = t" "p = coerce answer" by auto
      then show ?thesis using manual_loop_mono [OF asked(4)] by simp
    qed
  qed
qed

lemma manual_loop_cached:
  "manual_loop toks stored w = Inr (out, stored', w') \<Longrightarrow> (tok, p, src) \<in> set out \<Longrightarrow>
   stored (str_lower tok) = Some q \<Longrightarrow> src = ''manual(cache)'' \<and> p = q"
proof (induction toks arbitrary: stored w out)
  case Nil
  then show ?case by simp
next
  case (Cons t toks)
  from Cons.prems(1) show ?case
  proof (cases rule: manual_loop_Cons_cases)
    case (cached q' rest)
    with Cons.prems(2,3) Cons.IH show ?thesis by fastforce
  next
    case (punct rest)
    show ?thesis
    proof (cases "(tok, p, src) \<in> set rest")
      case True
      moreover from punct(1) Cons.prems(3)
      have "(stored(str_lower t \<mapsto> ''PUNCT'')) (str_lower tok) = Some q" by auto
      ultimately show ?thesis using punct(3) Cons.IH by blast
    next
      case False
      with punct Cons.prems(2,3) show ?thesis by auto
    qed
  next
    case (asked answer answers rest)
    show ?thesis
    proof (cases "(tok, p, src) \<in> set rest")
      case True
      moreover from asked(1) Cons.prems(3)
      have "(stored(str_lower t \<mapsto> coerce answer)) (str_lower tok) = Some q" by auto
      ultimately show ?thesis using asked(4) Cons.IH by blast
    next
      case False
      with asked Cons.prems(2,3) show ?thesis by auto
    qed
  qed
qed


lemma prompted_append: "prompted (es @ fs) = prompted es @ prompted fs"
  by (induction es rule: prompted.induct) simp_all

lemma count_list_append': "count_list (xs @ ys) x = count_list xs x + count_list ys x"
  by (induction xs) simp_all

lemma prompt_count_append:
  "prompt_count key (es @ fs) = prompt_count key es + prompt_count key fs"
  by (simp add: prompt_count_def prompted_append count_list_append')

lemma prompt_count_simps:
  "prompt_count key [] = 0"
  "prompt_count key [EvRead] = 0"
  "prompt_count key [EvWrite] = 0"
  "prompt_count key [EvPrompt tok] = (if str_lower tok = key then 1 else 0)"
  by (simp_all add: prompt_count_def)

lemma manual_loop_world:
  "manual_loop toks stored w = Inr (out, stored', w') \<Longrightarrow>
   store w' = store w \<and> (\<exists>ps. events w' = events w @ map EvPrompt ps)"
proof (induction toks arbitrary: stored w out)
  case Nil
  then show ?case by simp
next
  case (Cons tok toks)
  from Cons.prems show ?case
  proof (cases rule: manual_loop_Cons_cases)
    case (cached p rest)
    then show ?thesis using Cons.IH by blast
  next
    case (punct rest)
    then show ?thesis using Cons.IH by blast
  next
    case (asked answer answers rest)
    from Cons.IH [OF asked(4)] obtain ps where
      "store w' = store w" "events w' = events w @ [EvPrompt tok] @ map EvPrompt ps"
      by auto
    then have "events w' = events w @ map EvPrompt (tok # ps)" by simp
    with \<open>store w' = store w\<close> show ?thesis by blast
  qed
qed

lemma manual_loop_prompts:
  "manual_loop toks stored w = Inr (out, stored', w') \<Longrightarrow>
   \<exists>ps. events w' = events w @ map EvPrompt ps \<and> set ps \<subseteq> set toks"
proof (induction toks arbitrary: stored w out)
  case Nil
  then show ?case by simp
next
  case (Cons tok toks)
  from Cons.prems show ?case
  proof (cases rule: manual_loop_Cons_cases)
    case (cached p rest)
    from Cons.IH [OF cached(2)] show ?thesis by auto
  next
    case (punct rest)
    from Cons.IH [OF punct(3)] show ?thesis by auto
  next
    case (asked answer answers rest)
    from Cons.IH [OF asked(4)] obtain ps where
      ps: "events w' = events w @ [EvPrompt tok] @ map EvPrompt ps" "set ps \<subseteq> set toks"
      by auto
    from ps(1) have "events w' = events w @ map EvPrompt (tok # ps)" by simp
    moreover from ps(2) have "set (tok # ps) \<subseteq> set (tok # toks)" by auto
    ultimately show ?thesis by blast
  qed
qed

lemma manual_loop_dom:
  "manual_loop toks stored w = Inr (out, stored', w') \<Longrightarrow>
   dom stored' = dom stored \<union> str_lower ` set toks"
proof (induction toks arbitrary: stored w out)
  case Nil
  then show ?case by simp
next
  case (Cons tok toks)
  from Cons.prems show ?case
  proof (cases rule: manual_loop_Cons_cases)
    case (cached p rest)
    from Cons.IH [OF cached(2)] cached(1) show ?thesis by auto
  next
    case (punct rest)
    from Cons.IH [OF punct(3)] show ?thesis by auto
  next
    case (asked answer answers rest)
    from Cons.IH [OF asked(4)] show ?thesis by auto
  qed
qed

lemma coerce_valid: "coerce answer \<in> set VALID_POS"
  by (simp add: coerce_def Let_def) (simp add: VALID_POS_def)

lemma manual_loop_valid:
  "manual_loop toks stored w = Inr (out, stored', w') \<Longrightarrow>
   (\<And>k v. stored k = Some v \<Longrightarrow> v \<in> set VALID_POS) \<Longrightarrow>
   (tok, p, src) \<in> set out \<Longrightarrow> p \<in> set VALID_POS"
proof (induction toks arbitrary: stored w out)
  case Nil
  then show ?case by simp
next
  case (Cons t toks)
  from Cons.prems(1) show ?case
  proof (cases rule: manual_loop_Cons_cases)
    case (cached q rest)
    with Cons.prems(2,3) Cons.IH [OF cached(2)] show ?thesis by auto
  next
    case (punct rest)
    have "v \<in> set VALID_POS" if "(stored(str_lower t \<mapsto> ''PUNCT'')) k = Some v" for k v
      using that Cons.prems(2) by (auto simp: VALID_POS_def split: if_splits)
    from Cons.IH [OF punct(3) this] punct(4) Cons.prems(3) show ?thesis
      by (auto simp: VALID_POS_def)
  next
    case (asked answer answers rest)
    have "v \<in> set VALID_POS" if "(stored(str_lower t \<mapsto> coerce answer)) k = Some v" for k v
      using that Cons.prems(2) coerce_valid by (auto split: if_splits)
    from Cons.IH [OF asked(4) this] asked(5) Cons.prems(3) coerce_valid show ?thesis
      by auto
  qed
qed

text \<open>
  A relation that holds between every two elements of two lists in order, and between
  every element of the first and every element of the second, holds in their
  concatenation.
\<close>

lemma ordered_append:
  assumes "\<forall>j<length A. \<forall>i<j. R (A ! i) (A ! j)"
    and "\<forall>j<length B. \<forall>i<j. R (B ! i) (B ! j)"
    and "\<forall>a\<in>set A. \<forall>b\<in>set B. R a b"
  shows "\<forall>j<length (A @ B). \<forall>i<j. R ((A @ B) ! i) ((A @ B) ! j)"
proof (intro allI impI)
  fix j i
  assume j: "j < length (A @ B)" and i: "i < j"
  show "R ((A @ B) ! i) ((A @ B) ! j)"
  proof (cases "j < length A")
    case True
    with i assms(1) show ?thesis by (simp add: nth_append)
  next
    case False
    note jB = this
    show ?thesis
    proof (cases "i < length A")
      case True
      then have "A ! i \<in> set A" by simp
      moreover from jB j have "B ! (j - length A) \<in> set B" by simp
      ultimately show ?thesis using assms(3) True jB by (simp add: nth_append)
    next
      case False
      with jB i j assms(2) show ?thesis
        by (simp add: nth_append) 
    qed
  qed
qed

lemma manual_loop_ordered:
  "manual_loop toks stored w = Inr (out, stored', w') \<Longrightarrow>
   \<forall>j<length out. \<forall>i<j.
     (\<lambda>a b. str_lower (fst a) = str_lower (fst b) \<longrightarrow>
        snd (snd b) = ''manual(cache)'' \<and> fst (snd b) = fst (snd a)) (out ! i) (out ! j)"
proof (induction toks arbitrary: stored w out)
  case Nil
  then show ?case by simp
next
  case (Cons t toks)
  let ?R = "\<lambda>a b :: tagged. str_lower (fst a) = str_lower (fst b) \<longrightarrow>
        snd (snd b) = ''manual(cache)'' \<and> fst (snd b) = fst (snd a)"
  have step: "\<forall>j<length ([hd1] @ rest). \<forall>i<j. ?R (([hd1] @ rest) ! i) (([hd1] @ rest) ! j)"
    if "manual_loop toks stored1 w1 = Inr (rest, stored', w')"
       "stored1 (str_lower (fst hd1)) = Some (fst (snd hd1))"
    for hd1 rest stored1 w1
  proof (rule ordered_append)
    show "\<forall>j<length [hd1]. \<forall>i<j. ?R ([hd1] ! i) ([hd1] ! j)" by simp
    show "\<forall>j<length rest. \<forall>i<j. ?R (rest ! i) (rest ! j)"
      using Cons.IH [OF that(1)] .
    show "\<forall>a\<in>set [hd1]. \<forall>b\<in>set rest. ?R a b"
    proof (intro ballI impI)
      fix a b
      assume "a \<in> set [hd1]" and b: "b \<in> set rest"
        and "str_lower (fst a) = str_lower (fst b)"
      then have "stored1 (str_lower (fst b)) = Some (fst (snd a))"
        using that(2) by simp
      moreover have "(fst b, fst (snd b), snd (snd b)) \<in> set rest"
        using b by simp
      ultimately show "snd (snd b) = ''manual(cache)'' \<and> fst (snd b) = fst (snd a)"
        using manual_loop_cached [OF that(1)] by blast
    qed
  qed
  from Cons.prems show ?case
  proof (cases rule: manual_loop_Cons_cases)
    case (cached p rest)
    with step [of stored w rest "(t, p, ''manual(cache)'')"] show ?thesis by simp
  next
    case (punct rest)
    with step [of "stored(str_lower t \<mapsto> ''PUNCT'')" w rest
                  "(t, ''PUNCT'', ''manual(auto-punct)'')"]
    show ?thesis by simp
  next
    case (asked answer answers rest)
    with step [of "stored(str_lower t \<mapsto> coerce answer)" _ rest
                  "(t, coerce answer, ''manual'')"]
    show ?thesis by simp
  qed
qed

section \<open>Facts about one call of the manual tagger\<close>

lemma load_store_world:
  "store (snd (load_store w)) = store w"
  "stdin (snd (load_store w)) = stdin w"
  "events (snd (load_store w)) = events w @ (if store w = Missing then [] else [EvRead])"
  "fst (load_store w) = cache_of w"
  by (simp_all add: load_store_def cache_of_def split: store_file.splits)

lemma cache_of_Parsed: "store w = Parsed m \<Longrightarrow> cache_of w = m"
  by (simp add: cache_of_def load_store_def)

lemma manual_pos_tag_cases:
  assumes "manual_pos_tag toks w = Inr (out, w')"
  obtains stored' w2 where
    "manual_loop toks (cache_of w) (snd (load_store w)) = Inr (out, stored', w2)"
    "w' = w2\<lparr>store := Parsed stored', events := events w2 @ [EvWrite]\<rparr>"
    "cache_of w' = stored'"
proof -
  from assms obtain stored' w2 where
    l: "manual_loop toks (cache_of w) (snd (load_store w)) = Inr (out, stored', w2)"
    and w': "w' = w2\<lparr>store := Parsed stored', events := events w2 @ [EvWrite]\<rparr>"
    by (auto simp: manual_pos_tag_def cache_of_def split: prod.splits sum.splits)
  from w' have "cache_of w' = stored'" by (simp add: cache_of_Parsed)
  with l w' show ?thesis by (rule that)
qed

lemma manual_pos_tag_tokens:
  "manual_pos_tag toks w = Inr (out, w') \<Longrightarrow> map fst out = toks"
  by (erule manual_pos_tag_cases) (rule manual_loop_tokens)

lemma manual_pos_tag_mono:
  "manual_pos_tag toks w = Inr (out, w') \<Longrightarrow> cache_of w k = Some v \<Longrightarrow>
   cache_of w' k = Some v"
  by (erule manual_pos_tag_cases) (auto dest: manual_loop_mono)

lemma manual_pos_tag_pos:
  "manual_pos_tag toks w = Inr (out, w') \<Longrightarrow> (tok, p, src) \<in> set out \<Longrightarrow>
   cache_of w' (str_lower tok) = Some p"
  by (erule manual_pos_tag_cases) (auto dest: manual_loop_pos)

lemma manual_pos_tag_cached:
  "manual_pos_tag toks w = Inr (out, w') \<Longrightarrow> (tok, p, src) \<in> set out \<Longrightarrow>
   cache_of w (str_lower tok) = Some q \<Longrightarrow> src = ''manual(cache)'' \<and> p = q"
  by (erule manual_pos_tag_cases) (rule manual_loop_cached)

lemma manual_pos_tag_ordered:
  "manual_pos_tag toks w = Inr (out, w') \<Longrightarrow>
   \<forall>j<length out. \<forall>i<j.
     (\<lambda>a b. str_lower (fst a) = str_lower (fst b) \<longrightarrow>
        snd (snd b) = ''manual(cache)'' \<and> fst (snd b) = fst (snd a)) (out ! i) (out ! j)"
  by (erule manual_pos_tag_cases) (rule manual_loop_ordered)

lemma manual_pos_tag_valid:
  "manual_pos_tag toks w = Inr (out, w') \<Longrightarrow>
   (\<And>k v. cache_of w k = Some v \<Longrightarrow> v \<in> set VALID_POS) \<Longrightarrow>
   (tok, p, src) \<in> set out \<Longrightarrow> p \<in> set VALID_POS"
  by (erule manual_pos_tag_cases) (rule manual_loop_valid)

lemma manual_pos_tag_events:
  assumes "manual_pos_tag toks w = Inr (out, w')"
  shows "\<exists>ps. events w' =
     events w @ (if store w = Missing then [] else [EvRead]) @ map EvPrompt ps @ [EvWrite]"
  using assms
proof (cases rule: manual_pos_tag_cases)
  case (1 stored' w2)
  from manual_loop_world [OF 1(1)] obtain ps where
    "events w2 = events (snd (load_store w)) @ map EvPrompt ps" by blast
  with 1(2) show ?thesis by (auto simp: load_store_world)
qed

lemma manual_pos_tag_effect:
  assumes "manual_pos_tag toks w = Inr (out, w')"
  shows "(\<exists>ps. set ps \<subseteq> set toks \<and>
            events w' = events w @ (if store w = Missing then [] else [EvRead]) @
              map EvPrompt ps @ [EvWrite]) \<and>
         store w' = Parsed (cache_of w') \<and>
         dom (cache_of w') = dom (cache_of w) \<union> str_lower ` set toks"
  using assms
proof (cases rule: manual_pos_tag_cases)
  case (1 stored' w2)
  from manual_loop_prompts [OF 1(1)] obtain ps where
    ps: "events w2 = events (snd (load_store w)) @ map EvPrompt ps" "set ps \<subseteq> set toks"
    by blast
  from ps(1) 1(2) have "events w' = events w @ (if store w = Missing then [] else [EvRead]) @
              map EvPrompt ps @ [EvWrite]"
    by (simp add: load_store_world)
  with ps(2) have "\<exists>ps. set ps \<subseteq> set toks \<and>
            events w' = events w @ (if store w = Missing then [] else [EvRead]) @
              map EvPrompt ps @ [EvWrite]"
    by blast
  moreover from 1(2,3) have "store w' = Parsed (cache_of w')" by simp
  moreover from manual_loop_dom [OF 1(1)] 1(3)
  have "dom (cache_of w') = dom (cache_of w) \<union> str_lower ` set toks" by simp
  ultimately show ?thesis by blast
qed

lemma manual_loop_prompt_cases:
  "manual_loop toks stored w = Inr (out, stored', w') \<Longrightarrow>
   prompt_count key (events w') = prompt_count key (events w) \<or>
   (stored key = None \<and> stored' key \<noteq> None \<and>
    prompt_count key (events w') = prompt_count key (events w) + 1)"
proof (induction toks arbitrary: stored w out)
  case Nil
  then show ?case by simp
next
  case (Cons tok toks)
  from Cons.prems show ?case
  proof (cases rule: manual_loop_Cons_cases)
    case (cached p rest)
    then show ?thesis using Cons.IH by blast
  next
    case (punct rest)
    from Cons.IH [OF punct(3)] punct(1) show ?thesis
      by (auto split: if_splits)
  next
    case (asked answer answers rest)
    show ?thesis
    proof (cases "str_lower tok = key")
      case True
      then have "(stored(str_lower tok \<mapsto> coerce answer)) key = Some (coerce answer)"
        by simp
      from manual_loop_mono [OF asked(4) this] Cons.IH [OF asked(4)] True asked(1)
      show ?thesis
        by (simp add: prompt_count_append prompt_count_simps)
    next
      case False
      with Cons.IH [OF asked(4)] show ?thesis
        by (simp add: prompt_count_append prompt_count_simps)
    qed
  qed
qed

lemma manual_pos_tag_prompt_cases:
  assumes "manual_pos_tag toks w = Inr (out, w')"
  shows "prompt_count key (events w') = prompt_count key (events w) \<or>
   (cache_of w key = None \<and> cache_of w' key \<noteq> None \<and>
    prompt_count key (events w') = prompt_count key (events w) + 1)"
  using assms
proof (cases rule: manual_pos_tag_cases)
  case (1 stored' w2)
  from manual_loop_prompt_cases [OF 1(1), of key] 1(2,3) show ?thesis
    by (auto simp: load_store_world prompt_count_append prompt_count_simps split: if_splits)
qed

section \<open>Facts about the pipeline in manual mode\<close>

lemma make_row_simps:
  "row_sid (make_row si sent d (tok, p, src)) = si"
  "row_sent (make_row si sent d (tok, p, src)) = sent"
  "row_tok (make_row si sent d (tok, p, src)) = tok"
  "row_pos (make_row si sent d (tok, p, src)) = p"
  "row_src (make_row si sent d (tok, p, src)) = src"
  "row_lemma (make_row si sent d (tok, p, src)) = lemmatize_token tok d"
  "row_removed (make_row si sent d (tok, p, src)) = (is_stopword tok \<or> p = ''PUNCT'')"
  by (simp_all add: make_row_def)

lemma make_row_proj:
  "row_tok (make_row si sent d tg) = fst tg"
  "row_pos (make_row si sent d tg) = fst (snd tg)"
  "row_src (make_row si sent d tg) = snd (snd tg)"
  by (cases tg; simp add: make_row_def)+

lemma pipeline_loop_Cons_cases:
  assumes "pipeline_loop ((si, sent) # rest) d mode w = Inr (results, w')"
  obtains tagged w1 results' where
    "(if mode = ''manual'' then manual_pos_tag (tokenize sent) w
      else Inr (map (\<lambda>t. (t, heuristic_pos t, ''heuristic'')) (tokenize sent), w))
       = Inr (tagged, w1)"
    "pipeline_loop rest d mode w1 = Inr (results', w')"
    "results = map (make_row si sent d) tagged # results'"
  using assms by (auto simp: Let_def split: sum.splits)

lemma pipeline_manual_Cons_cases:
  assumes "pipeline_loop ((si, sent) # rest) d ''manual'' w = Inr (results, w')"
  obtains tagged w1 results' where
    "manual_pos_tag (tokenize sent) w = Inr (tagged, w1)"
    "pipeline_loop rest d ''manual'' w1 = Inr (results', w')"
    "results = map (make_row si sent d) tagged # results'"
  using assms by (auto simp: Let_def split: sum.splits)

lemma pipeline_manual_mono:
  "pipeline_loop ss d ''manual'' w = Inr (results, w') \<Longrightarrow> cache_of w k = Some v \<Longrightarrow>
   cache_of w' k = Some v"
proof (induction ss arbitrary: w results)
  case Nil
  then show ?case by simp
next
  case (Cons s ss)
  obtain si sent where s: "s = (si, sent)" by (cases s)
  from Cons.prems(1) [unfolded s] show ?case
  proof (cases rule: pipeline_manual_Cons_cases)
    case (1 tagged w1 results')
    from manual_pos_tag_mono [OF 1(1) Cons.prems(2)] have "cache_of w1 k = Some v" .
    with 1(2) show ?thesis by (rule Cons.IH)
  qed
qed

lemma pipeline_manual_pos:
  "pipeline_loop ss d ''manual'' w = Inr (results, w') \<Longrightarrow> r \<in> set (concat results) \<Longrightarrow>
   cache_of w' (str_lower (row_tok r)) = Some (row_pos r)"
proof (induction ss arbitrary: w results)
  case Nil
  then show ?case by simp
next
  case (Cons s ss)
  obtain si sent where s: "s = (si, sent)" by (cases s)
  from Cons.prems(1) [unfolded s] show ?case
  proof (cases rule: pipeline_manual_Cons_cases)
    case (1 tagged w1 results')
    show ?thesis
    proof (cases "r \<in> set (concat results')")
      case True
      with 1(2) show ?thesis by (rule Cons.IH)
    next
      case False
      with Cons.prems(2) 1(3) obtain tg where tg: "tg \<in> set tagged" "r = make_row si sent d tg"
        by auto
      then have "(row_tok r, row_pos r, row_src r) \<in> set tagged"
        by (simp add: make_row_proj)
      from manual_pos_tag_pos [OF 1(1) this]
      have "cache_of w1 (str_lower (row_tok r)) = Some (row_pos r)" .
      with 1(2) show ?thesis by (rule pipeline_manual_mono)
    qed
  qed
qed

lemma pipeline_manual_cached:
  "pipeline_loop ss d ''manual'' w = Inr (results, w') \<Longrightarrow> r \<in> set (concat results) \<Longrightarrow>
   cache_of w (str_lower (row_tok r)) = Some q \<Longrightarrow>
   row_src r = ''manual(cache)'' \<and> row_pos r = q"
proof (induction ss arbitrary: w results)
  case Nil
  then show ?case by simp
next
  case (Cons s ss)
  obtain si sent where s: "s = (si, sent)" by (cases s)
  from Cons.prems(1) [unfolded s] show ?case
  proof (cases rule: pipeline_manual_Cons_cases)
    case (1 tagged w1 results')
    show ?thesis
    proof (cases "r \<in> set (concat results')")
      case True
      moreover from manual_pos_tag_mono [OF 1(1) Cons.prems(3)]
      have "cache_of w1 (str_lower (row_tok r)) = Some q" .
      ultimately show ?thesis using 1(2) Cons.IH by blast
    next
      case False
      with Cons.prems(2) 1(3) obtain tg where tg: "tg \<in> set tagged" "r = make_row si sent d tg"
        by auto
      then have "(row_tok r, row_pos r, row_src r) \<in> set tagged"
        by (simp add: make_row_proj)
      from manual_pos_tag_cached [OF 1(1) this Cons.prems(3)] show ?thesis .
    qed
  qed
qed

lemma pipeline_manual_ordered:
  "pipeline_loop ss d ''manual'' w = Inr (results, w') \<Longrightarrow>
   \<forall>j<length (concat results). \<forall>i<j.
     (\<lambda>a b. str_lower (row_tok a) = str_lower (row_tok b) \<longrightarrow>
        row_src b = ''manual(cache)'' \<and> row_pos b = row_pos a)
     (concat results ! i) (concat results ! j)"
proof (induction ss arbitrary: w results)
  case Nil
  then show ?case by simp
next
  case (Cons s ss)
  let ?R = "\<lambda>a b. str_lower (row_tok a) = str_lower (row_tok b) \<longrightarrow>
        row_src b = ''manual(cache)'' \<and> row_pos b = row_pos a"
  obtain si sent where s: "s = (si, sent)" by (cases s)
  from Cons.prems(1) [unfolded s] show ?case
  proof (cases rule: pipeline_manual_Cons_cases)
    case (1 tagged w1 results')
    let ?A = "map (make_row si sent d) tagged" and ?B = "concat results'"
    have "\<forall>j<length (?A @ ?B). \<forall>i<j. ?R ((?A @ ?B) ! i) ((?A @ ?B) ! j)"
    proof (rule ordered_append)
      show "\<forall>j<length ?A. \<forall>i<j. ?R (?A ! i) (?A ! j)"
        using manual_pos_tag_ordered [OF 1(1)] by (simp add: make_row_proj)
      show "\<forall>j<length ?B. \<forall>i<j. ?R (?B ! i) (?B ! j)"
        using Cons.IH [OF 1(2)] .
      show "\<forall>a\<in>set ?A. \<forall>b\<in>set ?B. ?R a b"
      proof (intro ballI impI)
        fix a b
        assume a: "a \<in> set ?A" and b: "b \<in> set ?B"
          and same: "str_lower (row_tok a) = str_lower (row_tok b)"
        from a have "(row_tok a, row_pos a, row_src a) \<in> set tagged"
          by (auto simp: make_row_proj)
        from manual_pos_tag_pos [OF 1(1) this] same
        have "cache_of w1 (str_lower (row_tok b)) = Some (row_pos a)" by simp
        from pipeline_manual_cached [OF 1(2) b this]
        show "row_src b = ''manual(cache)'' \<and> row_pos b = row_pos a" .
      qed
    qed
    with 1(3) show ?thesis by simp
  qed
qed

lemma pipeline_manual_prompt_cases:
  "pipeline_loop ss d ''manual'' w = Inr (results, w') \<Longrightarrow>
   prompt_count key (events w') = prompt_count key (events w) \<or>
   (cache_of w key = None \<and> cache_of w' key \<noteq> None \<and>
    prompt_count key (events w') = prompt_count key (events w) + 1)"
proof (induction ss arbitrary: w results)
  case Nil
  then show ?case by simp
next
  case (Cons s ss)
  obtain si sent where s: "s = (si, sent)" by (cases s)
  from Cons.prems(1) [unfolded s] show ?case
  proof (cases rule: pipeline_manual_Cons_cases)
    case (1 tagged w1 results')
    note first = manual_pos_tag_prompt_cases [OF 1(1), of key]
    note later = Cons.IH [OF 1(2)]
    note m1 = manual_pos_tag_mono [OF 1(1), of key]
    note m2 = pipeline_manual_mono [OF 1(2), of key]
    show ?thesis
    proof (cases "cache_of w key")
      case None
      note uncached = this
      show ?thesis
      proof (cases "cache_of w1 key")
        case None
        with first later uncached show ?thesis by auto
      next
        case (Some v)
        from m2 [OF Some] Some first later uncached show ?thesis by auto
      qed
    next
      case (Some v)
      from m1 [OF Some] have "cache_of w1 key = Some v" .
      with Some first later show ?thesis by auto
    qed
  qed
qed

lemma row_triples_make_row:
  "map (\<lambda>r. (row_tok r, row_pos r, row_src r)) (map (make_row si sent d) tagged) = tagged"
  by (induction tagged) (simp_all add: make_row_proj)

lemma pipeline_manual_chain:
  "pipeline_loop ss d ''manual'' w = Inr (results, w') \<Longrightarrow>
   \<exists>ws. length ws = Suc (length ss) \<and> hd ws = w \<and> last ws = w' \<and>
     (\<forall>i<length ss. manual_pos_tag (tokenize (snd (ss ! i))) (ws ! i) =
         Inr (map (\<lambda>r. (row_tok r, row_pos r, row_src r)) (results ! i), ws ! Suc i))"
proof (induction ss arbitrary: w results)
  case Nil
  then have "w' = w" by simp
  then show ?case by (intro exI [of _ "[w]"]) simp
next
  case (Cons s ss)
  obtain si sent where s: "s = (si, sent)" by (cases s)
  from Cons.prems(1) [unfolded s] show ?case
  proof (cases rule: pipeline_manual_Cons_cases)
    case (1 tagged w1 results')
    from Cons.IH [OF 1(2)] obtain ws where
      ws: "length ws = Suc (length ss)" "hd ws = w1" "last ws = w'"
        "\<forall>i<length ss. manual_pos_tag (tokenize (snd (ss ! i))) (ws ! i) =
           Inr (map (\<lambda>r. (row_tok r, row_pos r, row_src r)) (results' ! i), ws ! Suc i)"
      by blast
    from ws(1) have ne: "ws \<noteq> []" by auto
    with ws(2) have w1: "ws ! 0 = w1" by (simp add: hd_conv_nth)
    have "manual_pos_tag (tokenize (snd ((s # ss) ! i))) ((w # ws) ! i) =
         Inr (map (\<lambda>r. (row_tok r, row_pos r, row_src r)) (results ! i), (w # ws) ! Suc i)"
      if "i < length (s # ss)" for i
    proof (cases i)
      case 0
      with 1(1,3) w1 s show ?thesis by (simp add: row_triples_make_row del: map_map)
    next
      case (Suc j)
      with that ws(4) 1(3) show ?thesis by simp
    qed
    moreover have "length (w # ws) = Suc (length (s # ss))" using ws(1) by simp
    moreover have "hd (w # ws) = w" by simp
    moreover have "last (w # ws) = w'" using ne ws(3) by simp
    ultimately show ?thesis by blast
  qed
qed

section \<open>Facts about the rows of a run\<close>

lemma pipeline_rows:
  "pipeline_loop ss d mode w = Inr (results, w') \<Longrightarrow> r \<in> set (concat results) \<Longrightarrow>
   row_removed r = (is_stopword (row_tok r) \<or> row_pos r = ''PUNCT'') \<and>
   (mode \<noteq> ''manual'' \<longrightarrow> row_pos r = heuristic_pos (row_tok r) \<and> row_src r = ''heuristic'')"
proof (induction ss arbitrary: w results)
  case Nil
  then show ?case by simp
next
  case (Cons s ss)
  obtain si sent where s: "s = (si, sent)" by (cases s)
  from Cons.prems(1) [unfolded s] show ?case
  proof (cases rule: pipeline_loop_Cons_cases)
    case (1 tagged w1 results')
    show ?thesis
    proof (cases "r \<in> set (concat results')")
      case True
      with 1(2) show ?thesis by (rule Cons.IH)
    next
      case False
      with Cons.prems(2) 1(3) obtain tg where tg: "tg \<in> set tagged" "r = make_row si sent d tg"
        by auto
      obtain tok p src where [simp]: "tg = (tok, p, src)" by (cases tg)
      from tg 1(1) show ?thesis
        by (auto simp: make_row_simps split: if_splits)
    qed
  qed
qed

lemma pipeline_loop_tokens:
  "pipeline_loop ss d mode w = Inr (results, w') \<Longrightarrow>
   map (map row_tok) results = map (\<lambda>s. tokenize (snd s)) ss"
proof (induction ss arbitrary: w results)
  case Nil
  then show ?case by simp
next
  case (Cons s ss)
  obtain si sent where s: "s = (si, sent)" by (cases s)
  from Cons.prems(1) [unfolded s] show ?case
  proof (cases rule: pipeline_loop_Cons_cases)
    case (1 tagged w1 results')
    have "map fst tagged = tokenize sent"
    proof (cases "mode = ''manual''")
      case True
      with 1(1) show ?thesis by (simp add: manual_pos_tag_tokens)
    next
      case False
      with 1(1) show ?thesis by (auto simp: o_def)
    qed
    then have "map row_tok (map (make_row si sent d) tagged) = tokenize sent"
      by (simp add: make_row_proj o_def)
    with Cons.IH [OF 1(2)] 1(3) s show ?thesis by simp
  qed
qed

lemma pipeline_heuristic_tags:
  "pipeline_loop ss d mode w = Inr (results, w') \<Longrightarrow> mode \<noteq> ''manual'' \<Longrightarrow>
   map (map (\<lambda>r. (row_tok r, row_pos r, row_src r))) results =
     map (\<lambda>s. map (\<lambda>t. (t, heuristic_pos t, ''heuristic'')) (tokenize (snd s))) ss"
proof (induction ss arbitrary: w results)
  case Nil
  then show ?case by simp
next
  case (Cons s ss)
  obtain si sent where s: "s = (si, sent)" by (cases s)
  from Cons.prems(1) [unfolded s] show ?case
  proof (cases rule: pipeline_loop_Cons_cases)
    case (1 tagged w1 results')
    from 1(1) Cons.prems(2)
    have "tagged = map (\<lambda>t. (t, heuristic_pos t, ''heuristic'')) (tokenize sent)" by simp
    with Cons.IH [OF 1(2) Cons.prems(2)] 1(3) s show ?thesis
      by (simp add: row_triples_make_row del: map_map)
  qed
qed

lemma run_pipeline_tokens:
  assumes "run_pipeline text d mode w = Inr (results, w')"
  shows "map (map row_tok) results = map tokenize (sentence_segment text)"
proof -
  have "map (\<lambda>s. tokenize (snd s)) (enumerate 1 (sentence_segment text)) =
    map tokenize (sentence_segment text)"
    by (rule nth_equalityI) (simp_all add: nth_enumerate_eq)
  with pipeline_loop_tokens [OF assms [unfolded run_pipeline_def]]
  show ?thesis by (simp only:)
qed

lemma heuristic_pos_valid: "heuristic_pos tok \<in> set VALID_POS"
  by (simp add: heuristic_pos_def VALID_POS_def Let_def)

lemma manual_loop_valid_cache:
  "manual_loop toks stored w = Inr (out, stored', w') \<Longrightarrow>
   (\<And>k v. stored k = Some v \<Longrightarrow> v \<in> set VALID_POS) \<Longrightarrow>
   stored' k = Some v \<Longrightarrow> v \<in> set VALID_POS"
proof (induction toks arbitrary: stored w out)
  case Nil
  then show ?case by simp
next
  case (Cons t toks)
  from Cons.prems(1) show ?case
  proof (cases rule: manual_loop_Cons_cases)
    case (cached q rest)
    from Cons.IH [OF cached(2) Cons.prems(2,3)] show ?thesis .
  next
    case (punct rest)
    have "v \<in> set VALID_POS" if "(stored(str_lower t \<mapsto> ''PUNCT'')) k = Some v" for k v
      using that Cons.prems(2) by (auto simp: VALID_POS_def split: if_splits)
    from Cons.IH [OF punct(3) this Cons.prems(3)] show ?thesis .
  next
    case (asked answer answers rest)
    have "v \<in> set VALID_POS" if "(stored(str_lower t \<mapsto> coerce answer)) k = Some v" for k v
      using that Cons.prems(2) coerce_valid by (auto split: if_splits)
    from Cons.IH [OF asked(4) this Cons.prems(3)] show ?thesis .
  qed
qed

lemma manual_pos_tag_valid_cache:
  "manual_pos_tag toks w = Inr (out, w') \<Longrightarrow>
   (\<And>k v. cache_of w k = Some v \<Longrightarrow> v \<in> set VALID_POS) \<Longrightarrow>
   cache_of w' k = Some v \<Longrightarrow> v \<in> set VALID_POS"
  by (erule manual_pos_tag_cases) (auto dest: manual_loop_valid_cache)

lemma pipeline_manual_valid:
  "pipeline_loop ss d ''manual'' w = Inr (results, w') \<Longrightarrow>
   (\<And>k v. cache_of w k = Some v \<Longrightarrow> v \<in> set VALID_POS) \<Longrightarrow>
   r \<in> set (concat results) \<Longrightarrow> row_pos r \<in> set VALID_POS"
proof (induction ss arbitrary: w results)
  case Nil
  then show ?case by simp
next
  case (Cons s ss)
  obtain si sent where s: "s = (si, sent)" by (cases s)
  from Cons.prems(1) [unfolded s] show ?case
  proof (cases rule: pipeline_manual_Cons_cases)
    case (1 tagged w1 results')
    show ?thesis
    proof (cases "r \<in> set (concat results')")
      case True
      have "v \<in> set VALID_POS" if "cache_of w1 k = Some v" for k v
        using manual_pos_tag_valid_cache [OF 1(1) Cons.prems(2) that] .
      from Cons.IH [OF 1(2) this True] show ?thesis .
    next
      case False
      with Cons.prems(3) 1(3) obtain tg where tg: "tg \<in> set tagged" "r = make_row si sent d tg"
        by auto
      then have "(row_tok r, row_pos r, row_src r) \<in> set tagged"
        by (simp add: make_row_proj)
      from manual_pos_tag_valid [OF 1(1) Cons.prems(2) this] show ?thesis .
    qed
  qed
qed


lemmas run_simps = run_pipeline_def sentence_segment_def match_run_def manual_pos_tag_def
  load_store_def make_row_def lemmatize_token_def FALLBACK_LEMMA_DICT_def fullmatch_alpha_def
  is_stopword_def DEFAULT_STOPWORDS_def fullmatch_punct_def fullmatch_run_def
  heuristic_pos_def COMMON_DET_def COMMON_ADP_def COMMON_CONJ_def COMMON_PRON_def
  VALID_POS_def is_sent_end_def is_sent_start_def enumerate_eq_zip rows_of_def world_of_def
  Let_def eval_simps

lemma count_list_concat_ones:
  "(\<And>tr. tr \<in> set traces \<Longrightarrow> count_list tr x = 1) \<Longrightarrow>
   count_list (concat traces) x = length traces"
  by (induction traces) (simp_all add: count_list_append')

lemma count_list_prompts: "count_list (map EvPrompt ps) EvWrite = 0"
  by (induction ps) simp_all

lemma pipeline_manual_trace:
  "pipeline_loop ss d ''manual'' w = Inr (results, w') \<Longrightarrow>
   \<exists>traces. events w' = events w @ concat traces \<and> length traces = length ss \<and>
     (\<forall>tr\<in>set traces. \<exists>rd ps. tr = rd @ map EvPrompt ps @ [EvWrite] \<and>
        (rd = [] \<or> rd = [EvRead]))"
proof (induction ss arbitrary: w results)
  case Nil
  then show ?case by simp
next
  case (Cons s ss)
  obtain si sent where s: "s = (si, sent)" by (cases s)
  from Cons.prems(1) [unfolded s] show ?case
  proof (cases rule: pipeline_manual_Cons_cases)
    case (1 tagged w1 results')
    from manual_pos_tag_events [OF 1(1)] obtain ps where
      first: "events w1 =
        events w @ (if store w = Missing then [] else [EvRead]) @ map EvPrompt ps @ [EvWrite]"
      by blast
    from Cons.IH [OF 1(2)] obtain traces where
      later: "events w' = events w1 @ concat traces" "length traces = length ss"
        "\<forall>tr\<in>set traces. \<exists>rd ps. tr = rd @ map EvPrompt ps @ [EvWrite] \<and>
           (rd = [] \<or> rd = [EvRead])"
      by blast
    let ?tr = "(if store w = Missing then [] else [EvRead]) @ map EvPrompt ps @ [EvWrite]"
    have "events w' = events w @ concat (?tr # traces)"
      using first later(1) by simp
    moreover have "length (?tr # traces) = length (s # ss)"
      using later(2) by simp
    moreover have "\<exists>rd ps'. ?tr = rd @ map EvPrompt ps' @ [EvWrite] \<and>
           (rd = [] \<or> rd = [EvRead])"
      by (intro exI [of _ "if store w = Missing then [] else [EvRead]"] exI [of _ ps]) simp
    then have "\<forall>tr\<in>set (?tr # traces). \<exists>rd ps. tr = rd @ map EvPrompt ps @ [EvWrite] \<and>
           (rd = [] \<or> rd = [EvRead])"
      using later(3) by simp
    ultimately show ?thesis by blast
  qed
qed

section \<open>POS tags and the closed tag set\<close>

text \<open>
  Claim C4, as stated: in either mode, tags read from a pre-existing cache file included,
  the POS tag of every row is one of the eleven labels of \<open>VALID_POS\<close>. This fails for
  a cache file that holds another string: the tagger emits what the file says. Below, the
  file maps \<open>dogs\<close> to \<open>BANANA\<close>.
\<close>

theorem pos_tag_from_cache_counterexample:
  "map row_pos (rows_of (run_pipeline ''Dogs'' Map.empty ''manual''
     \<lparr>store = Parsed (Map.empty(''dogs'' \<mapsto> ''BANANA'')), stdin = [], events = []\<rparr>)) =
     [''BANANA''] \<and> ''BANANA'' \<notin> set VALID_POS"
  by (simp add: run_pipeline_def sentence_segment_def match_run_def manual_pos_tag_def
        load_store_def make_row_def fullmatch_punct_def VALID_POS_def is_sent_end_def
        is_sent_start_def enumerate_eq_zip rows_of_def Let_def eval_simps)

text \<open>
  Claim C4, amended: the POS tag of every row of a completed run is a member of
  \<open>VALID_POS\<close> in heuristic mode, and in manual mode whenever every tag of the cache
  file the run starts from is a member of \<open>VALID_POS\<close> (an absent or unparsable file
  counts as empty). What no rule resolves gets \<open>OTHER\<close>: the token \<open>_\<close> in
  heuristic mode, the answer \<open>banana\<close> in manual mode.
\<close>

theorem pos_tag_in_valid_set:
  assumes "run_pipeline text d pos_mode w = Inr (results, w')"
    and "pos_mode = ''manual'' \<longrightarrow> (\<forall>k v. cache_of w k = Some v \<longrightarrow> v \<in> set VALID_POS)"
  shows "(\<forall>r\<in>set (concat results). row_pos r \<in> set VALID_POS) \<and>
         heuristic_pos ''_'' = ''OTHER'' \<and> coerce ''banana'' = ''OTHER''"
proof -
  note run = assms(1) [unfolded run_pipeline_def]
  have "row_pos r \<in> set VALID_POS" if r: "r \<in> set (concat results)" for r
  proof (cases "pos_mode = ''manual''")
    case True
    with assms(2) have "v \<in> set VALID_POS" if "cache_of w k = Some v" for k v
      using that by blast
    from pipeline_manual_valid [OF run [unfolded True] this r] show ?thesis .
  next
    case False
    with pipeline_rows [OF run r] show ?thesis
      by (simp add: heuristic_pos_valid)
  qed
  moreover have "heuristic_pos ''_'' = ''OTHER''"
    by (simp add: heuristic_pos_def fullmatch_punct_def fullmatch_run_def COMMON_DET_def
        COMMON_ADP_def COMMON_CONJ_def COMMON_PRON_def Let_def eval_simps)
  moreover have "coerce ''banana'' = ''OTHER''"
    by (simp add: coerce_def VALID_POS_def Let_def eval_simps)
  ultimately show ?thesis by blast
qed

theorem pos_tag_in_valid_set_witness:
  "run_pipeline ''Dogs bark.'' Map.empty ''manual''
     \<lparr>store = Parsed (Map.empty(''dogs'' \<mapsto> ''NOUN'')), stdin = [''banana''], events = []\<rparr> =
   Inr ([[make_row 1 ''Dogs bark.'' Map.empty (''Dogs'', ''NOUN'', ''manual(cache)''),
          make_row 1 ''Dogs bark.'' Map.empty (''bark'', ''OTHER'', ''manual''),
          make_row 1 ''Dogs bark.'' Map.empty (''.'', ''PUNCT'', ''manual(auto-punct)'')]],
        \<lparr>store = Parsed (Map.empty(''dogs'' \<mapsto> ''NOUN'', ''bark'' \<mapsto> ''OTHER'',
                                   ''.'' \<mapsto> ''PUNCT'')),
         stdin = [], events = [EvRead, EvPrompt ''bark'', EvWrite]\<rparr>) \<and>
   cache_of \<lparr>store = Parsed (Map.empty(''dogs'' \<mapsto> ''NOUN'')), stdin = [''banana''],
             events = []\<rparr> = Map.empty(''dogs'' \<mapsto> ''NOUN'') \<and>
   ''NOUN'' \<in> set VALID_POS \<and>
   row_pos (make_row 1 ''Dogs bark.'' Map.empty (''Dogs'', ''NOUN'', ''manual(cache)''))
     \<in> set VALID_POS \<and>
   row_pos (make_row 1 ''Dogs bark.'' Map.empty (''bark'', ''OTHER'', ''manual''))
     \<in> set VALID_POS \<and>
   row_pos (make_row 1 ''Dogs bark.'' Map.empty (''.'', ''PUNCT'', ''manual(auto-punct)''))
     \<in> set VALID_POS"
proof -
  let ?w = "\<lparr>store = Parsed (Map.empty(''dogs'' \<mapsto> ''NOUN'')), stdin = [''banana''],
             events = []\<rparr>"
  let ?rows = "[make_row 1 ''Dogs bark.'' Map.empty (''Dogs'', ''NOUN'', ''manual(cache)''),
          make_row 1 ''Dogs bark.'' Map.empty (''bark'', ''OTHER'', ''manual''),
          make_row 1 ''Dogs bark.'' Map.empty (''.'', ''PUNCT'', ''manual(auto-punct)'')]"
  have run: "run_pipeline ''Dogs bark.'' Map.empty ''manual'' ?w =
   Inr ([?rows],
        \<lparr>store = Parsed (Map.empty(''dogs'' \<mapsto> ''NOUN'', ''bark'' \<mapsto> ''OTHER'',
                                   ''.'' \<mapsto> ''PUNCT'')),
         stdin = [], events = [EvRead, EvPrompt ''bark'', EvWrite]\<rparr>)"
    by (simp add: run_pipeline_def sentence_segment_def match_run_def manual_pos_tag_def
        load_store_def fullmatch_punct_def VALID_POS_def is_sent_end_def is_sent_start_def
        enumerate_eq_zip Let_def eval_simps)
  have cache: "cache_of ?w = Map.empty(''dogs'' \<mapsto> ''NOUN'')"
    by (simp add: cache_of_def load_store_def)
  have noun: "''NOUN'' \<in> set VALID_POS"
    by (simp add: VALID_POS_def)
  have "''manual'' = ''manual'' \<longrightarrow>
      (\<forall>k v. cache_of ?w k = Some v \<longrightarrow> v \<in> set VALID_POS)"
    using noun by (auto simp: cache split: if_splits)
  from pos_tag_in_valid_set [OF run this, THEN conjunct1]
  have "\<forall>r\<in>set ?rows. row_pos r \<in> set VALID_POS" by simp
  with run cache noun show ?thesis by simp
qed

section \<open>The removed flag\<close>

text \<open>
  Claim C6: a completed run, in either mode, has one row for every token of every
  sentence of the text, in order, and the POS tag of a row is the tag that the classifier
  of the mode assigned to its token: in heuristic mode \<open>heuristic_pos\<close> of the token, in
  manual mode the tag that the call of \<open>manual_pos_tag\<close> for the sentence returned for
  it, the calls being made in order, each in the world the one before left. In every row
  the removed flag is true exactly when the lowercased token is in \<open>DEFAULT_STOPWORDS\<close>
  or the row's POS tag is \<open>PUNCT\<close>; the test is case-insensitive, so \<open>The\<close>, \<open>THE\<close>
  and \<open>the\<close> are stop words, and every row for one of these tokens is removed.
\<close>

theorem removed_flag_iff:
  "(run_pipeline text d pos_mode w = Inr (results, w') \<longrightarrow>
      map (map row_tok) results = map tokenize (sentence_segment text) \<and>
      (pos_mode \<noteq> ''manual'' \<longrightarrow>
         map (map (\<lambda>r. (row_tok r, row_pos r, row_src r))) results =
           map (\<lambda>s. map (\<lambda>t. (t, heuristic_pos t, ''heuristic'')) (tokenize s))
             (sentence_segment text)) \<and>
      (pos_mode = ''manual'' \<longrightarrow>
         (\<exists>ws. length ws = Suc (length (sentence_segment text)) \<and> hd ws = w \<and> last ws = w' \<and>
            (\<forall>i<length (sentence_segment text).
               manual_pos_tag (tokenize (sentence_segment text ! i)) (ws ! i) =
                 Inr (map (\<lambda>r. (row_tok r, row_pos r, row_src r)) (results ! i), ws ! Suc i)))) \<and>
      (\<forall>r\<in>set (concat results).
         (row_removed r \<longleftrightarrow>
            str_lower (row_tok r) \<in> DEFAULT_STOPWORDS \<or> row_pos r = ''PUNCT'') \<and>
         (row_tok r \<in> {''The'', ''THE'', ''the''} \<longrightarrow> row_removed r))) \<and>
   is_stopword ''The'' \<and> is_stopword ''THE'' \<and> is_stopword ''the''"
proof -
  have stop: "is_stopword ''The'' \<and> is_stopword ''THE'' \<and> is_stopword ''the''"
    by (simp add: is_stopword_def DEFAULT_STOPWORDS_def eval_simps)
  have rows: "(row_removed r \<longleftrightarrow>
           str_lower (row_tok r) \<in> DEFAULT_STOPWORDS \<or> row_pos r = ''PUNCT'') \<and>
        (row_tok r \<in> {''The'', ''THE'', ''the''} \<longrightarrow> row_removed r)"
    if "run_pipeline text d pos_mode w = Inr (results, w')" "r \<in> set (concat results)" for r
  proof -
    from pipeline_rows [OF that(1) [unfolded run_pipeline_def] that(2)]
    have iff: "row_removed r \<longleftrightarrow>
        str_lower (row_tok r) \<in> DEFAULT_STOPWORDS \<or> row_pos r = ''PUNCT''"
      by (simp add: is_stopword_def)
    moreover have "row_removed r" if "row_tok r \<in> {''The'', ''THE'', ''the''}"
      using that stop iff by (auto simp: is_stopword_def)
    ultimately show ?thesis by blast
  qed
  have toks: "map (map row_tok) results = map tokenize (sentence_segment text)"
    if "run_pipeline text d pos_mode w = Inr (results, w')"
  proof -
    have "map (\<lambda>s. tokenize (snd s)) (enumerate 1 (sentence_segment text)) =
      map tokenize (sentence_segment text)"
      by (rule nth_equalityI) (simp_all add: nth_enumerate_eq)
    with pipeline_loop_tokens [OF that [unfolded run_pipeline_def]]
    show ?thesis by (simp only:)
  qed
  have heur: "map (map (\<lambda>r. (row_tok r, row_pos r, row_src r))) results =
           map (\<lambda>s. map (\<lambda>t. (t, heuristic_pos t, ''heuristic'')) (tokenize s))
             (sentence_segment text)"
    if "run_pipeline text d pos_mode w = Inr (results, w')" "pos_mode \<noteq> ''manual''"
  proof -
    have "map (\<lambda>s. map (\<lambda>t. (t, heuristic_pos t, ''heuristic'')) (tokenize (snd s)))
        (enumerate 1 (sentence_segment text)) =
      map (\<lambda>s. map (\<lambda>t. (t, heuristic_pos t, ''heuristic'')) (tokenize s))
        (sentence_segment text)"
      by (rule nth_equalityI) (simp_all add: nth_enumerate_eq)
    with pipeline_heuristic_tags [OF that(1) [unfolded run_pipeline_def] that(2)]
    show ?thesis by (simp only:)
  qed
  have man: "\<exists>ws. length ws = Suc (length (sentence_segment text)) \<and> hd ws = w \<and> last ws = w' \<and>
            (\<forall>i<length (sentence_segment text).
               manual_pos_tag (tokenize (sentence_segment text ! i)) (ws ! i) =
                 Inr (map (\<lambda>r. (row_tok r, row_pos r, row_src r)) (results ! i), ws ! Suc i))"
    if "run_pipeline text d pos_mode w = Inr (results, w')" "pos_mode = ''manual''"
    using pipeline_manual_chain [OF that(1) [unfolded run_pipeline_def that(2)]]
    by (simp add: nth_enumerate_eq)
  from stop rows toks heur man show ?thesis by blast
qed

theorem removed_flag_iff_witness:
  "run_pipeline ''THE end.'' Map.empty ''heuristic'' \<lparr>store = Missing, stdin = [], events = []\<rparr> =
     Inr ([[make_row 1 ''THE end.'' Map.empty (''THE'', ''DET'', ''heuristic''),
            make_row 1 ''THE end.'' Map.empty (''end'', ''NOUN'', ''heuristic''),
            make_row 1 ''THE end.'' Map.empty (''.'', ''PUNCT'', ''heuristic'')]],
          \<lparr>store = Missing, stdin = [], events = []\<rparr>) \<and>
   map tokenize (sentence_segment ''THE end.'') = [[''THE'', ''end'', ''.'']] \<and>
   row_removed (make_row 1 ''THE end.'' Map.empty (''THE'', ''DET'', ''heuristic'')) \<and>
   \<not> row_removed (make_row 1 ''THE end.'' Map.empty (''end'', ''NOUN'', ''heuristic'')) \<and>
   row_removed (make_row 1 ''THE end.'' Map.empty (''.'', ''PUNCT'', ''heuristic'')) \<and>
   run_pipeline ''Dogs end.'' Map.empty ''manual''
       \<lparr>store = Missing, stdin = [''noun'', ''punct''], events = []\<rparr> =
     Inr ([[make_row 1 ''Dogs end.'' Map.empty (''Dogs'', ''NOUN'', ''manual''),
            make_row 1 ''Dogs end.'' Map.empty (''end'', ''PUNCT'', ''manual''),
            make_row 1 ''Dogs end.'' Map.empty (''.'', ''PUNCT'', ''manual(auto-punct)'')]],
          \<lparr>store = Parsed (Map.empty(''dogs'' \<mapsto> ''NOUN'', ''end'' \<mapsto> ''PUNCT'',
                                     ''.'' \<mapsto> ''PUNCT'')),
           stdin = [], events = [EvPrompt ''Dogs'', EvPrompt ''end'', EvWrite]\<rparr>) \<and>
   map tokenize (sentence_segment ''Dogs end.'') = [[''Dogs'', ''end'', ''.'']] \<and>
   \<not> row_removed (make_row 1 ''Dogs end.'' Map.empty (''Dogs'', ''NOUN'', ''manual'')) \<and>
   row_removed (make_row 1 ''Dogs end.'' Map.empty (''end'', ''PUNCT'', ''manual'')) \<and>
   row_removed (make_row 1 ''Dogs end.'' Map.empty (''.'', ''PUNCT'', ''manual(auto-punct)''))"
proof -
  let ?w = "\<lparr>store = Missing, stdin = [], events = []\<rparr>"
  let ?rows = "[make_row 1 ''THE end.'' Map.empty (''THE'', ''DET'', ''heuristic''),
            make_row 1 ''THE end.'' Map.empty (''end'', ''NOUN'', ''heuristic''),
            make_row 1 ''THE end.'' Map.empty (''.'', ''PUNCT'', ''heuristic'')]"
  have run: "run_pipeline ''THE end.'' Map.empty ''heuristic'' ?w = Inr ([?rows], ?w)"
    by (simp add: run_pipeline_def sentence_segment_def match_run_def heuristic_pos_def
        fullmatch_punct_def fullmatch_run_def COMMON_DET_def COMMON_ADP_def COMMON_CONJ_def
        COMMON_PRON_def is_sent_end_def is_sent_start_def enumerate_eq_zip Let_def eval_simps)
  note inst = removed_flag_iff [of "''THE end.''" Map.empty "''heuristic''" ?w "[?rows]" ?w,
      THEN conjunct1, THEN mp, OF run]
  from inst [THEN conjunct1]
  have toks: "map tokenize (sentence_segment ''THE end.'') = [[''THE'', ''end'', ''.'']]"
    by (simp add: make_row_simps(3))
  from inst [THEN conjunct2, THEN conjunct2, THEN conjunct2]
  have flags: "row_removed (?rows ! 0) \<and> \<not> row_removed (?rows ! 1) \<and> row_removed (?rows ! 2)"
    by (simp add: make_row_simps(3,4) DEFAULT_STOPWORDS_def eval_simps)
  let ?v = "\<lparr>store = Missing, stdin = [''noun'', ''punct''], events = []\<rparr>"
  let ?v' = "\<lparr>store = Parsed (Map.empty(''dogs'' \<mapsto> ''NOUN'', ''end'' \<mapsto> ''PUNCT'',
                                     ''.'' \<mapsto> ''PUNCT'')),
           stdin = [], events = [EvPrompt ''Dogs'', EvPrompt ''end'', EvWrite]\<rparr>"
  let ?mrows = "[make_row 1 ''Dogs end.'' Map.empty (''Dogs'', ''NOUN'', ''manual''),
            make_row 1 ''Dogs end.'' Map.empty (''end'', ''PUNCT'', ''manual''),
            make_row 1 ''Dogs end.'' Map.empty (''.'', ''PUNCT'', ''manual(auto-punct)'')]"
  have mrun: "run_pipeline ''Dogs end.'' Map.empty ''manual'' ?v = Inr ([?mrows], ?v')"
    by (simp add: run_pipeline_def sentence_segment_def match_run_def manual_pos_tag_def
        load_store_def fullmatch_punct_def VALID_POS_def is_sent_end_def
        is_sent_start_def enumerate_eq_zip Let_def eval_simps)
  note minst = removed_flag_iff [of "''Dogs end.''" Map.empty "''manual''" ?v "[?mrows]" ?v',
      THEN conjunct1, THEN mp, OF mrun]
  from minst [THEN conjunct1]
  have mtoks: "map tokenize (sentence_segment ''Dogs end.'') = [[''Dogs'', ''end'', ''.'']]"
    by (simp add: make_row_simps(3))
  from minst [THEN conjunct2, THEN conjunct2, THEN conjunct2]
  have mflags: "\<not> row_removed (?mrows ! 0) \<and> row_removed (?mrows ! 1) \<and> row_removed (?mrows ! 2)"
    by (simp add: make_row_simps(3,4) DEFAULT_STOPWORDS_def eval_simps)
  from run toks flags mrun mtoks mflags show ?thesis by simp
qed

section \<open>Answers outside the tag set\<close>

text \<open>
  Claim C9, as stated: any response outside the fixed POS tag set is coerced to
  \<open>OTHER\<close>. The source compares the response only after \<open>strip\<close> and \<open>upper\<close>:
  the responses \<open>noun\<close> and \<open>Verb\<close> between two spaces are no members of
  \<open>VALID_POS\<close>, and the loop stores and emits \<open>NOUN\<close> and \<open>VERB\<close> for them.
\<close>

theorem manual_answer_outside_set_counterexample:
  "''noun'' \<notin> set VALID_POS \<and> '' Verb '' \<notin> set VALID_POS \<and>
   manual_loop [''Dogs'', ''bark''] Map.empty
     \<lparr>store = Missing, stdin = [''noun'', '' Verb ''], events = []\<rparr> =
     Inr ([(''Dogs'', ''NOUN'', ''manual''), (''bark'', ''VERB'', ''manual'')],
          Map.empty(''dogs'' \<mapsto> ''NOUN'', ''bark'' \<mapsto> ''VERB''),
          \<lparr>store = Missing, stdin = [], events = [EvPrompt ''Dogs'', EvPrompt ''bark'']\<rparr>)"
  by (simp add: fullmatch_punct_def VALID_POS_def Let_def eval_simps)

text \<open>
  Claim C9, amended: when the manual loop reaches a token that is neither cached nor a
  single punctuation character, and the answer read for it, stripped and uppercased, is
  not in \<open>VALID_POS\<close>, then the token is emitted with tag \<open>OTHER\<close> and provenance
  \<open>manual\<close>, the loop goes on to the next token with the remaining answers (no second
  prompt for this token: exactly one more prompt for its form is logged), and the
  dictionary that the call writes back maps the form to \<open>OTHER\<close>.
\<close>

theorem manual_invalid_answer_coerced:
  assumes "stored (str_lower tok) = None" and "\<not> fullmatch_punct tok"
    and "stdin w = answer # answers"
    and "str_upper (str_strip answer) \<notin> set VALID_POS"
    and "manual_loop (tok # toks) stored w = Inr (out, stored', w')"
  shows "(\<exists>rest. out = (tok, ''OTHER'', ''manual'') # rest \<and>
            manual_loop toks (stored(str_lower tok \<mapsto> ''OTHER''))
              (w\<lparr>stdin := answers, events := events w @ [EvPrompt tok]\<rparr>) =
            Inr (rest, stored', w')) \<and>
         stored' (str_lower tok) = Some ''OTHER'' \<and>
         prompt_count (str_lower tok) (events w') = prompt_count (str_lower tok) (events w) + 1"
  using assms(5)
proof (cases rule: manual_loop_Cons_cases)
  case (cached p rest)
  with assms(1) show ?thesis by simp
next
  case (punct rest)
  with assms(2) show ?thesis by simp
next
  case (asked answer' answers' rest)
  from asked(3) assms(3) have same: "answer' = answer" "answers' = answers" by simp_all
  from assms(4) have other: "coerce answer = ''OTHER''" by (simp add: coerce_def)
  note rest = asked(4) [unfolded same other]
  have "(stored(str_lower tok \<mapsto> ''OTHER'')) (str_lower tok) = Some ''OTHER''" by simp
  from manual_loop_mono [OF rest this] have cached: "stored' (str_lower tok) = Some ''OTHER''" .
  from manual_loop_prompt_cases [OF rest, of "str_lower tok"]
  have "prompt_count (str_lower tok) (events w') = prompt_count (str_lower tok) (events w) + 1"
    by (simp add: prompt_count_append prompt_count_simps)
  with rest cached asked(5) same other show ?thesis by simp
qed

theorem manual_invalid_answer_coerced_witness:
  "Map.empty (str_lower ''Dogs'') = (None :: string option) \<and> \<not> fullmatch_punct ''Dogs'' \<and>
   stdin \<lparr>store = Missing, stdin = [''banana'', ''verb''], events = []\<rparr> = ''banana'' # [''verb''] \<and>
   str_upper (str_strip ''banana'') \<notin> set VALID_POS \<and>
   manual_loop (''Dogs'' # [''bark'']) Map.empty
     \<lparr>store = Missing, stdin = [''banana'', ''verb''], events = []\<rparr> =
   Inr ([(''Dogs'', ''OTHER'', ''manual''), (''bark'', ''VERB'', ''manual'')],
        Map.empty(''dogs'' \<mapsto> ''OTHER'', ''bark'' \<mapsto> ''VERB''),
        \<lparr>store = Missing, stdin = [], events = [EvPrompt ''Dogs'', EvPrompt ''bark'']\<rparr>) \<and>
   (Map.empty(''dogs'' \<mapsto> ''OTHER'', ''bark'' \<mapsto> ''VERB'')) (str_lower ''Dogs'') = Some ''OTHER'' \<and>
   prompt_count (str_lower ''Dogs'') [EvPrompt ''Dogs'', EvPrompt ''bark''] =
     prompt_count (str_lower ''Dogs'') [] + 1"
proof -
  let ?w = "\<lparr>store = Missing, stdin = [''banana'', ''verb''], events = []\<rparr>"
  let ?w' = "\<lparr>store = Missing, stdin = [], events = [EvPrompt ''Dogs'', EvPrompt ''bark'']\<rparr>"
  have h1: "Map.empty (str_lower ''Dogs'') = (None :: string option)" by simp
  have h2: "\<not> fullmatch_punct ''Dogs''" by (simp add: fullmatch_punct_def)
  have h3: "stdin ?w = ''banana'' # [''verb'']" by simp
  have h4: "str_upper (str_strip ''banana'') \<notin> set VALID_POS"
    by (simp add: VALID_POS_def eval_simps)
  have h5: "manual_loop (''Dogs'' # [''bark'']) Map.empty ?w =
    Inr ([(''Dogs'', ''OTHER'', ''manual''), (''bark'', ''VERB'', ''manual'')],
        Map.empty(''dogs'' \<mapsto> ''OTHER'', ''bark'' \<mapsto> ''VERB''), ?w')"
    by (simp add: fullmatch_punct_def VALID_POS_def Let_def eval_simps)
  from manual_invalid_answer_coerced [OF h1 h2 h3 h4 h5] h1 h2 h3 h4 h5
  show ?thesis by simp
qed

section \<open>Writes of the manual tag cache\<close>

text \<open>
  Claim C1, as stated: processing a whole document in manual mode writes the cache file
  exactly once, after all sentences. This fails for a document of two sentences: the log
  of the run below holds two writes, the first before the second sentence is tagged.
\<close>

theorem manual_store_written_once_counterexample:
  "map_option events (world_of (run_pipeline ''Dogs bark. Dogs run.'' Map.empty ''manual''
     \<lparr>store = Missing, stdin = [''noun'', ''verb'', ''verb''], events = []\<rparr>)) =
   Some [EvPrompt ''Dogs'', EvPrompt ''bark'', EvWrite, EvRead, EvPrompt ''run'', EvWrite] \<and>
   count_list [EvPrompt ''Dogs'', EvPrompt ''bark'', EvWrite, EvRead, EvPrompt ''run'', EvWrite]
     EvWrite = 2"
  by (simp add: run_pipeline_def sentence_segment_def match_run_def manual_pos_tag_def
        load_store_def fullmatch_punct_def VALID_POS_def is_sent_end_def is_sent_start_def
        enumerate_eq_zip world_of_def Let_def eval_simps)

text \<open>
  Claim C1, amended: in manual mode the cache file is read and written back in full once
  per sentence. A completed run on a document of \<open>n\<close> sentences adds exactly \<open>n\<close>
  writes to the log. It is a chain of \<open>n\<close> calls of \<open>manual_pos_tag\<close>, one per sentence
  in order, each in the world the one before left, and each call: reads the file at its
  start exactly when the file exists, then prompts for tokens of its sentence only, then
  writes the file once, at its end; leaves in the file the whole dictionary, that is
  every entry it loaded, unchanged, and an entry for the lowercased form of every token
  of the sentence and for nothing else; and the entry for the token of a row is the tag
  of that row, the rows of a sentence being its tokens in order.
\<close>

theorem manual_store_written_per_sentence:
  assumes "run_pipeline text d ''manual'' w = Inr (results, w')"
  shows "count_list (events w') EvWrite =
           count_list (events w) EvWrite + length (sentence_segment text) \<and>
         map (map row_tok) results = map tokenize (sentence_segment text) \<and>
         (\<exists>ws. length ws = Suc (length (sentence_segment text)) \<and> hd ws = w \<and> last ws = w' \<and>
            (\<forall>i<length (sentence_segment text).
               manual_pos_tag (tokenize (sentence_segment text ! i)) (ws ! i) =
                 Inr (map (\<lambda>r. (row_tok r, row_pos r, row_src r)) (results ! i), ws ! Suc i) \<and>
               (\<exists>ps. set ps \<subseteq> set (tokenize (sentence_segment text ! i)) \<and>
                  events (ws ! Suc i) =
                    events (ws ! i) @ (if store (ws ! i) = Missing then [] else [EvRead]) @
                    map EvPrompt ps @ [EvWrite]) \<and>
               store (ws ! Suc i) = Parsed (cache_of (ws ! Suc i)) \<and>
               dom (cache_of (ws ! Suc i)) =
                 dom (cache_of (ws ! i)) \<union> str_lower ` set (tokenize (sentence_segment text ! i)) \<and>
               (\<forall>k v. cache_of (ws ! i) k = Some v \<longrightarrow> cache_of (ws ! Suc i) k = Some v) \<and>
               (\<forall>r\<in>set (results ! i).
                  cache_of (ws ! Suc i) (str_lower (row_tok r)) = Some (row_pos r))))"
proof -
  let ?sents = "sentence_segment text"
  from pipeline_manual_trace [OF assms [unfolded run_pipeline_def]] obtain traces where
    tr: "events w' = events w @ concat traces" "length traces = length ?sents"
      "\<forall>tr\<in>set traces. \<exists>rd ps. tr = rd @ map EvPrompt ps @ [EvWrite] \<and>
         (rd = [] \<or> rd = [EvRead])"
    by auto
  have "count_list t EvWrite = 1" if "t \<in> set traces" for t
  proof -
    from tr(3) that obtain rd ps where
      "t = rd @ map EvPrompt ps @ [EvWrite]" "rd = [] \<or> rd = [EvRead]" by blast
    then show ?thesis by (auto simp: count_list_append' count_list_prompts)
  qed
  then have "count_list (concat traces) EvWrite = length traces"
    by (rule count_list_concat_ones)
  with tr(1,2) have count: "count_list (events w') EvWrite =
      count_list (events w) EvWrite + length ?sents"
    by (simp add: count_list_append')
  from pipeline_manual_chain [OF assms [unfolded run_pipeline_def]] obtain ws where
    ws: "length ws = Suc (length ?sents)" "hd ws = w" "last ws = w'"
      "\<forall>i<length ?sents. manual_pos_tag (tokenize (?sents ! i)) (ws ! i) =
         Inr (map (\<lambda>r. (row_tok r, row_pos r, row_src r)) (results ! i), ws ! Suc i)"
    by (auto simp: nth_enumerate_eq)
  have "manual_pos_tag (tokenize (?sents ! i)) (ws ! i) =
          Inr (map (\<lambda>r. (row_tok r, row_pos r, row_src r)) (results ! i), ws ! Suc i) \<and>
        (\<exists>ps. set ps \<subseteq> set (tokenize (?sents ! i)) \<and>
           events (ws ! Suc i) =
             events (ws ! i) @ (if store (ws ! i) = Missing then [] else [EvRead]) @
             map EvPrompt ps @ [EvWrite]) \<and>
        store (ws ! Suc i) = Parsed (cache_of (ws ! Suc i)) \<and>
        dom (cache_of (ws ! Suc i)) =
          dom (cache_of (ws ! i)) \<union> str_lower ` set (tokenize (?sents ! i)) \<and>
        (\<forall>k v. cache_of (ws ! i) k = Some v \<longrightarrow> cache_of (ws ! Suc i) k = Some v) \<and>
        (\<forall>r\<in>set (results ! i).
           cache_of (ws ! Suc i) (str_lower (row_tok r)) = Some (row_pos r))"
    if "i < length ?sents" for i
  proof -
    from ws(4) that have call: "manual_pos_tag (tokenize (?sents ! i)) (ws ! i) =
          Inr (map (\<lambda>r. (row_tok r, row_pos r, row_src r)) (results ! i), ws ! Suc i)"
      by blast
    note effect = manual_pos_tag_effect [OF call]
    have keep: "\<forall>k v. cache_of (ws ! i) k = Some v \<longrightarrow> cache_of (ws ! Suc i) k = Some v"
      using manual_pos_tag_mono [OF call] by blast
    have "cache_of (ws ! Suc i) (str_lower (row_tok r)) = Some (row_pos r)"
      if "r \<in> set (results ! i)" for r
    proof -
      from that have "(row_tok r, row_pos r, row_src r) \<in>
          set (map (\<lambda>r. (row_tok r, row_pos r, row_src r)) (results ! i))"
        by (simp add: image_iff) blast
      then show ?thesis by (rule manual_pos_tag_pos [OF call])
    qed
    with call effect keep show ?thesis by blast
  qed
  with count run_pipeline_tokens [OF assms] ws(1,2,3) show ?thesis by blast
qed

theorem manual_store_written_per_sentence_witness:
  "run_pipeline ''Dogs bark. Dogs run.'' Map.empty ''manual''
     \<lparr>store = Missing, stdin = [''noun'', ''verb'', ''verb''], events = []\<rparr> =
   Inr ([[make_row 1 ''Dogs bark.'' Map.empty (''Dogs'', ''NOUN'', ''manual''),
          make_row 1 ''Dogs bark.'' Map.empty (''bark'', ''VERB'', ''manual''),
          make_row 1 ''Dogs bark.'' Map.empty (''.'', ''PUNCT'', ''manual(auto-punct)'')],
         [make_row 2 ''Dogs run.'' Map.empty (''Dogs'', ''NOUN'', ''manual(cache)''),
          make_row 2 ''Dogs run.'' Map.empty (''run'', ''VERB'', ''manual''),
          make_row 2 ''Dogs run.'' Map.empty (''.'', ''PUNCT'', ''manual(cache)'')]],
        \<lparr>store = Parsed (Map.empty(''dogs'' \<mapsto> ''NOUN'', ''bark'' \<mapsto> ''VERB'',
                                   ''.'' \<mapsto> ''PUNCT'', ''run'' \<mapsto> ''VERB'')),
         stdin = [],
         events = [EvPrompt ''Dogs'', EvPrompt ''bark'', EvWrite,
                   EvRead, EvPrompt ''run'', EvWrite]\<rparr>) \<and>
   count_list [EvPrompt ''Dogs'', EvPrompt ''bark'', EvWrite, EvRead, EvPrompt ''run'', EvWrite]
     EvWrite = count_list [] EvWrite + length (sentence_segment ''Dogs bark. Dogs run.'') \<and>
   map tokenize (sentence_segment ''Dogs bark. Dogs run.'') =
     [[''Dogs'', ''bark'', ''.''], [''Dogs'', ''run'', ''.'']] \<and>
   manual_pos_tag [''Dogs'', ''bark'', ''.'']
     \<lparr>store = Missing, stdin = [''noun'', ''verb'', ''verb''], events = []\<rparr> =
   Inr ([(''Dogs'', ''NOUN'', ''manual''), (''bark'', ''VERB'', ''manual''),
         (''.'', ''PUNCT'', ''manual(auto-punct)'')],
        \<lparr>store = Parsed (Map.empty(''dogs'' \<mapsto> ''NOUN'', ''bark'' \<mapsto> ''VERB'',
                                   ''.'' \<mapsto> ''PUNCT'')),
         stdin = [''verb''],
         events = [EvPrompt ''Dogs'', EvPrompt ''bark'', EvWrite]\<rparr>) \<and>
   manual_pos_tag [''Dogs'', ''run'', ''.'']
     \<lparr>store = Parsed (Map.empty(''dogs'' \<mapsto> ''NOUN'', ''bark'' \<mapsto> ''VERB'',
                                ''.'' \<mapsto> ''PUNCT'')),
      stdin = [''verb''],
      events = [EvPrompt ''Dogs'', EvPrompt ''bark'', EvWrite]\<rparr> =
   Inr ([(''Dogs'', ''NOUN'', ''manual(cache)''), (''run'', ''VERB'', ''manual''),
         (''.'', ''PUNCT'', ''manual(cache)'')],
        \<lparr>store = Parsed (Map.empty(''dogs'' \<mapsto> ''NOUN'', ''bark'' \<mapsto> ''VERB'',
                                   ''.'' \<mapsto> ''PUNCT'', ''run'' \<mapsto> ''VERB'')),
         stdin = [],
         events = [EvPrompt ''Dogs'', EvPrompt ''bark'', EvWrite,
                   EvRead, EvPrompt ''run'', EvWrite]\<rparr>)"
proof -
  let ?w = "\<lparr>store = Missing, stdin = [''noun'', ''verb'', ''verb''], events = []\<rparr>"
  let ?w' = "\<lparr>store = Parsed (Map.empty(''dogs'' \<mapsto> ''NOUN'', ''bark'' \<mapsto> ''VERB'',
                                   ''.'' \<mapsto> ''PUNCT'', ''run'' \<mapsto> ''VERB'')),
         stdin = [],
         events = [EvPrompt ''Dogs'', EvPrompt ''bark'', EvWrite,
                   EvRead, EvPrompt ''run'', EvWrite]\<rparr>"
  have run: "run_pipeline ''Dogs bark. Dogs run.'' Map.empty ''manual'' ?w =
   Inr ([[make_row 1 ''Dogs bark.'' Map.empty (''Dogs'', ''NOUN'', ''manual''),
          make_row 1 ''Dogs bark.'' Map.empty (''bark'', ''VERB'', ''manual''),
          make_row 1 ''Dogs bark.'' Map.empty (''.'', ''PUNCT'', ''manual(auto-punct)'')],
         [make_row 2 ''Dogs run.'' Map.empty (''Dogs'', ''NOUN'', ''manual(cache)''),
          make_row 2 ''Dogs run.'' Map.empty (''run'', ''VERB'', ''manual''),
          make_row 2 ''Dogs run.'' Map.empty (''.'', ''PUNCT'', ''manual(cache)'')]], ?w')"
    by (simp add: run_pipeline_def sentence_segment_def match_run_def manual_pos_tag_def
        load_store_def make_row_def fullmatch_punct_def VALID_POS_def is_sent_end_def
        is_sent_start_def enumerate_eq_zip Let_def eval_simps)
  have toks: "map tokenize (sentence_segment ''Dogs bark. Dogs run.'') =
     [[''Dogs'', ''bark'', ''.''], [''Dogs'', ''run'', ''.'']]"
    by (simp add: sentence_segment_def match_run_def is_sent_end_def is_sent_start_def
        Let_def eval_simps)
  have call1: "manual_pos_tag [''Dogs'', ''bark'', ''.''] ?w =
   Inr ([(''Dogs'', ''NOUN'', ''manual''), (''bark'', ''VERB'', ''manual''),
         (''.'', ''PUNCT'', ''manual(auto-punct)'')],
        \<lparr>store = Parsed (Map.empty(''dogs'' \<mapsto> ''NOUN'', ''bark'' \<mapsto> ''VERB'',
                                   ''.'' \<mapsto> ''PUNCT'')),
         stdin = [''verb''],
         events = [EvPrompt ''Dogs'', EvPrompt ''bark'', EvWrite]\<rparr>)"
    by (simp add: manual_pos_tag_def load_store_def fullmatch_punct_def VALID_POS_def
        Let_def eval_simps)
  have call2: "manual_pos_tag [''Dogs'', ''run'', ''.'']
     \<lparr>store = Parsed (Map.empty(''dogs'' \<mapsto> ''NOUN'', ''bark'' \<mapsto> ''VERB'',
                                ''.'' \<mapsto> ''PUNCT'')),
      stdin = [''verb''],
      events = [EvPrompt ''Dogs'', EvPrompt ''bark'', EvWrite]\<rparr> =
   Inr ([(''Dogs'', ''NOUN'', ''manual(cache)''), (''run'', ''VERB'', ''manual''),
         (''.'', ''PUNCT'', ''manual(cache)'')], ?w')"
    by (simp add: manual_pos_tag_def load_store_def fullmatch_punct_def VALID_POS_def
        Let_def eval_simps)
  from manual_store_written_per_sentence [OF run, THEN conjunct1]
  have "count_list [EvPrompt ''Dogs'', EvPrompt ''bark'', EvWrite, EvRead, EvPrompt ''run'',
      EvWrite] EvWrite = count_list [] EvWrite + length (sentence_segment ''Dogs bark. Dogs run.'')"
    by simp
  with run toks call1 call2 show ?thesis by (simp only:)
qed

section \<open>Repeated forms in manual mode\<close>

text \<open>
  Claim C2, as stated: every occurrence of a form after the first is emitted with the
  cached tag and provenance \<open>manual-cached\<close>. The provenance string of the source is
  \<open>manual(cache)\<close>.
\<close>

theorem manual_repeats_cached_label_counterexample:
  "map row_src (rows_of (run_pipeline ''Dogs bark. Dogs run.'' Map.empty ''manual''
     \<lparr>store = Missing, stdin = [''noun'', ''verb'', ''verb''], events = []\<rparr>)) =
     [''manual'', ''manual'', ''manual(auto-punct)'', ''manual(cache)'', ''manual'',
      ''manual(cache)''] \<and>
   ''manual(cache)'' \<noteq> ''manual-cached''"
  by (simp add: run_pipeline_def sentence_segment_def match_run_def manual_pos_tag_def
        load_store_def make_row_def fullmatch_punct_def VALID_POS_def is_sent_end_def
        is_sent_start_def enumerate_eq_zip rows_of_def Let_def eval_simps)

text \<open>
  Claim C2, amended: take two completed manual runs, the second starting from the cache
  file the first left behind (and with its own standard input), and all their rows in
  order. Every row whose lowercased token occurred in an earlier row carries the tag of
  that earlier row and provenance \<open>manual(cache)\<close>, and over both runs the user is
  asked at most once about each lowercased form.
\<close>

theorem manual_repeats_cached:
  assumes "run_pipeline text1 d1 ''manual'' w0 = Inr (results1, w1)"
    and "run_pipeline text2 d2 ''manual'' (w1\<lparr>stdin := answers2\<rparr>) = Inr (results2, w2)"
  shows "(\<forall>j<length (concat results1 @ concat results2). \<forall>i<j.
            str_lower (row_tok ((concat results1 @ concat results2) ! i)) =
            str_lower (row_tok ((concat results1 @ concat results2) ! j)) \<longrightarrow>
              row_src ((concat results1 @ concat results2) ! j) = ''manual(cache)'' \<and>
              row_pos ((concat results1 @ concat results2) ! j) =
                row_pos ((concat results1 @ concat results2) ! i)) \<and>
         (\<forall>key. prompt_count key (events w2) \<le> prompt_count key (events w0) + 1)"
proof -
  let ?R = "\<lambda>a b. str_lower (row_tok a) = str_lower (row_tok b) \<longrightarrow>
        row_src b = ''manual(cache)'' \<and> row_pos b = row_pos a"
  let ?A = "concat results1" and ?B = "concat results2"
  note run1 = assms(1) [unfolded run_pipeline_def]
  note run2 = assms(2) [unfolded run_pipeline_def]
  have same_cache: "cache_of (w1\<lparr>stdin := answers2\<rparr>) = cache_of w1"
    by (simp add: cache_of_def load_store_def split: store_file.splits)
  have "\<forall>j<length (?A @ ?B). \<forall>i<j. ?R ((?A @ ?B) ! i) ((?A @ ?B) ! j)"
  proof (rule ordered_append)
    show "\<forall>j<length ?A. \<forall>i<j. ?R (?A ! i) (?A ! j)"
      using pipeline_manual_ordered [OF run1] .
    show "\<forall>j<length ?B. \<forall>i<j. ?R (?B ! i) (?B ! j)"
      using pipeline_manual_ordered [OF run2] .
    show "\<forall>a\<in>set ?A. \<forall>b\<in>set ?B. ?R a b"
    proof (intro ballI impI)
      fix a b
      assume a: "a \<in> set ?A" and b: "b \<in> set ?B"
        and same: "str_lower (row_tok a) = str_lower (row_tok b)"
      from pipeline_manual_pos [OF run1 a] same
      have "cache_of (w1\<lparr>stdin := answers2\<rparr>) (str_lower (row_tok b)) = Some (row_pos a)"
        by (simp add: same_cache)
      from pipeline_manual_cached [OF run2 b this]
      show "row_src b = ''manual(cache)'' \<and> row_pos b = row_pos a" .
    qed
  qed
  moreover have "prompt_count key (events w2) \<le> prompt_count key (events w0) + 1" for key
    using pipeline_manual_prompt_cases [OF run1, of key]
      pipeline_manual_prompt_cases [OF run2, of key]
    by (auto simp: same_cache)
  ultimately show ?thesis by blast
qed

theorem manual_repeats_cached_witness:
  "run_pipeline ''Dogs bark.'' Map.empty ''manual''
     \<lparr>store = Missing, stdin = [''noun'', ''verb''], events = []\<rparr> =
   Inr ([[make_row 1 ''Dogs bark.'' Map.empty (''Dogs'', ''NOUN'', ''manual''),
          make_row 1 ''Dogs bark.'' Map.empty (''bark'', ''VERB'', ''manual''),
          make_row 1 ''Dogs bark.'' Map.empty (''.'', ''PUNCT'', ''manual(auto-punct)'')]],
        \<lparr>store = Parsed (Map.empty(''dogs'' \<mapsto> ''NOUN'', ''bark'' \<mapsto> ''VERB'',
                                   ''.'' \<mapsto> ''PUNCT'')),
         stdin = [], events = [EvPrompt ''Dogs'', EvPrompt ''bark'', EvWrite]\<rparr>) \<and>
   run_pipeline ''dogs run.'' Map.empty ''manual''
     (\<lparr>store = Parsed (Map.empty(''dogs'' \<mapsto> ''NOUN'', ''bark'' \<mapsto> ''VERB'',
                                 ''.'' \<mapsto> ''PUNCT'')),
       stdin = [], events = [EvPrompt ''Dogs'', EvPrompt ''bark'', EvWrite]\<rparr>
      \<lparr>stdin := [''verb'']\<rparr>) =
   Inr ([[make_row 1 ''dogs run.'' Map.empty (''dogs'', ''NOUN'', ''manual(cache)''),
          make_row 1 ''dogs run.'' Map.empty (''run'', ''VERB'', ''manual''),
          make_row 1 ''dogs run.'' Map.empty (''.'', ''PUNCT'', ''manual(cache)'')]],
        \<lparr>store = Parsed (Map.empty(''dogs'' \<mapsto> ''NOUN'', ''bark'' \<mapsto> ''VERB'',
                                   ''.'' \<mapsto> ''PUNCT'', ''run'' \<mapsto> ''VERB'')),
         stdin = [],
         events = [EvPrompt ''Dogs'', EvPrompt ''bark'', EvWrite,
                   EvRead, EvPrompt ''run'', EvWrite]\<rparr>) \<and>
   (\<forall>key. prompt_count key
       [EvPrompt ''Dogs'', EvPrompt ''bark'', EvWrite, EvRead, EvPrompt ''run'', EvWrite]
         \<le> prompt_count key [] + 1) \<and>
   row_src (make_row 1 ''dogs run.'' Map.empty (''dogs'', ''NOUN'', ''manual(cache)'')) =
     ''manual(cache)'' \<and>
   row_pos (make_row 1 ''dogs run.'' Map.empty (''dogs'', ''NOUN'', ''manual(cache)'')) =
     row_pos (make_row 1 ''Dogs bark.'' Map.empty (''Dogs'', ''NOUN'', ''manual''))"
proof -
  let ?w0 = "\<lparr>store = Missing, stdin = [''noun'', ''verb''], events = []\<rparr>"
  let ?w1 = "\<lparr>store = Parsed (Map.empty(''dogs'' \<mapsto> ''NOUN'', ''bark'' \<mapsto> ''VERB'',
                                   ''.'' \<mapsto> ''PUNCT'')),
         stdin = [], events = [EvPrompt ''Dogs'', EvPrompt ''bark'', EvWrite]\<rparr>"
  let ?w2 = "\<lparr>store = Parsed (Map.empty(''dogs'' \<mapsto> ''NOUN'', ''bark'' \<mapsto> ''VERB'',
                                   ''.'' \<mapsto> ''PUNCT'', ''run'' \<mapsto> ''VERB'')),
         stdin = [],
         events = [EvPrompt ''Dogs'', EvPrompt ''bark'', EvWrite,
                   EvRead, EvPrompt ''run'', EvWrite]\<rparr>"
  let ?r1 = "[[make_row 1 ''Dogs bark.'' Map.empty (''Dogs'', ''NOUN'', ''manual''),
          make_row 1 ''Dogs bark.'' Map.empty (''bark'', ''VERB'', ''manual''),
          make_row 1 ''Dogs bark.'' Map.empty (''.'', ''PUNCT'', ''manual(auto-punct)'')]]"
  let ?r2 = "[[make_row 1 ''dogs run.'' Map.empty (''dogs'', ''NOUN'', ''manual(cache)''),
          make_row 1 ''dogs run.'' Map.empty (''run'', ''VERB'', ''manual''),
          make_row 1 ''dogs run.'' Map.empty (''.'', ''PUNCT'', ''manual(cache)'')]]"
  have run1: "run_pipeline ''Dogs bark.'' Map.empty ''manual'' ?w0 = Inr (?r1, ?w1)"
    by (simp add: run_pipeline_def sentence_segment_def match_run_def manual_pos_tag_def
        load_store_def fullmatch_punct_def VALID_POS_def is_sent_end_def is_sent_start_def
        enumerate_eq_zip Let_def eval_simps)
  have run2: "run_pipeline ''dogs run.'' Map.empty ''manual'' (?w1\<lparr>stdin := [''verb'']\<rparr>) =
      Inr (?r2, ?w2)"
    by (simp add: run_pipeline_def sentence_segment_def match_run_def manual_pos_tag_def
        load_store_def fullmatch_punct_def VALID_POS_def is_sent_end_def is_sent_start_def
        enumerate_eq_zip Let_def eval_simps)
  note inst = manual_repeats_cached [OF run1 run2]
  from inst have counts: "\<forall>key. prompt_count key (events ?w2) \<le> prompt_count key (events ?w0) + 1"
    by (rule conjunct2)
  have later: "row_src (make_row 1 ''dogs run.'' Map.empty (''dogs'', ''NOUN'', ''manual(cache)''))
      = ''manual(cache)'' \<and>
    row_pos (make_row 1 ''dogs run.'' Map.empty (''dogs'', ''NOUN'', ''manual(cache)'')) =
      row_pos (make_row 1 ''Dogs bark.'' Map.empty (''Dogs'', ''NOUN'', ''manual''))"
    using inst [THEN conjunct1, rule_format, of 3 0]
    by (simp add: make_row_simps eval_simps)
  from run1 run2 counts later show ?thesis by simp
qed

section \<open>The lemma dictionary loader\<close>

lemma split_first_parts:
  assumes "sep \<in> set s"
  shows "s = fst (split_first sep s) @ [sep] @ snd (split_first sep s)"
    and "sep \<notin> set (fst (split_first sep s))"
proof -
  let ?P = "\<lambda>c. c \<noteq> sep"
  from assms have ne: "dropWhile ?P s \<noteq> []"
    by (auto simp: dropWhile_eq_Nil_conv)
  then have "\<not> ?P (hd (dropWhile ?P s))"
    by (rule hd_dropWhile)
  with ne have "dropWhile ?P s = sep # tl (dropWhile ?P s)"
    by (cases "dropWhile ?P s") auto
  then have "takeWhile ?P s @ [sep] @ tl (dropWhile ?P s) = takeWhile ?P s @ dropWhile ?P s"
    by simp
  then show "s = fst (split_first sep s) @ [sep] @ snd (split_first sep s)"
    by (simp add: split_first_def)
  show "sep \<notin> set (fst (split_first sep s))"
    by (auto simp: split_first_def dest: set_takeWhileD)
qed

lemma load_lines_snoc:
  "load_lines (lines @ [line]) m =
     (case parse_line line of
        None \<Rightarrow> load_lines lines m
      | Some (w, l) \<Rightarrow> (load_lines lines m)(str_lower w \<mapsto> str_lower l))"
  by (induction lines arbitrary: m) (auto split: option.splits)

text \<open>
  Claim C8: the loader handles the lines of the file in order, each one stripped of its
  surrounding whitespace (the source's \<open>line = line.strip()\<close>, which also removes the
  line terminator). A line is skipped exactly when, so stripped, it is empty, starts with
  \<open>#\<close>, or contains neither a tab nor a space. Otherwise it is split at its first tab if
  it contains one, and at its first space if not: the word is what stands before that
  separator, the lemma all that stands after it. Both are stored lowercased, a later line
  overwriting an earlier entry for the same lowercased word.
\<close>

theorem load_lemma_dict_lines:
  "(parse_line line = None \<longleftrightarrow>
      str_strip line = [] \<or> startswith (str_strip line) ''#'' \<or>
      (CHR 0x09 \<notin> set (str_strip line) \<and> CHR '' '' \<notin> set (str_strip line))) \<and>
   (parse_line line = Some (w, l) \<and> CHR 0x09 \<in> set (str_strip line) \<longrightarrow>
      str_strip line = w @ [CHR 0x09] @ l \<and> CHR 0x09 \<notin> set w) \<and>
   (parse_line line = Some (w, l) \<and> CHR 0x09 \<notin> set (str_strip line) \<longrightarrow>
      str_strip line = w @ '' '' @ l \<and> CHR '' '' \<notin> set w) \<and>
   load_lemma_dict [] = Map.empty \<and>
   load_lemma_dict (lines @ [line]) =
     (case parse_line line of
        None \<Rightarrow> load_lemma_dict lines
      | Some (w, l) \<Rightarrow> (load_lemma_dict lines)(str_lower w \<mapsto> str_lower l))"
proof -
  let ?s = "str_strip line"
  have skip: "parse_line line = None \<longleftrightarrow>
      ?s = [] \<or> startswith ?s ''#'' \<or> (CHR 0x09 \<notin> set ?s \<and> CHR '' '' \<notin> set ?s)"
    by (simp add: parse_line_def Let_def)
  have tab: "?s = w @ [CHR 0x09] @ l \<and> CHR 0x09 \<notin> set w"
    if "parse_line line = Some (w, l)" "CHR 0x09 \<in> set ?s"
  proof -
    from that have "(w, l) = split_first (CHR 0x09) ?s"
      by (simp add: parse_line_def Let_def split: if_splits)
    then have "w = fst (split_first (CHR 0x09) ?s)" "l = snd (split_first (CHR 0x09) ?s)"
      by (simp_all add: prod_eq_iff)
    with split_first_parts [OF that(2)] show ?thesis by simp
  qed
  have space: "?s = w @ '' '' @ l \<and> CHR '' '' \<notin> set w"
    if "parse_line line = Some (w, l)" "CHR 0x09 \<notin> set ?s"
  proof -
    from that have in_s: "CHR '' '' \<in> set ?s" and "(w, l) = split_first (CHR '' '') ?s"
      by (simp_all add: parse_line_def Let_def split: if_splits)
    then have "w = fst (split_first (CHR '' '') ?s)" "l = snd (split_first (CHR '' '') ?s)"
      by (simp_all add: prod_eq_iff)
    with split_first_parts [OF in_s] show ?thesis by simp
  qed
  have empty: "load_lemma_dict [] = Map.empty"
    by (simp add: load_lemma_dict_def)
  have snoc: "load_lemma_dict (lines @ [line]) =
     (case parse_line line of
        None \<Rightarrow> load_lemma_dict lines
      | Some (w, l) \<Rightarrow> (load_lemma_dict lines)(str_lower w \<mapsto> str_lower l))"
    unfolding load_lemma_dict_def by (rule load_lines_snoc)
  from skip tab space empty snoc show ?thesis by blast
qed

theorem load_lemma_dict_lines_witness:
  "parse_line ('' Dogs'' @ [CHR 0x09] @ ''Dog food '') = Some (''Dogs'', ''Dog food'') \<and>
   CHR 0x09 \<in> set (str_strip ('' Dogs'' @ [CHR 0x09] @ ''Dog food '')) \<and>
   str_strip ('' Dogs'' @ [CHR 0x09] @ ''Dog food '') = ''Dogs'' @ [CHR 0x09] @ ''Dog food'' \<and>
   CHR 0x09 \<notin> set ''Dogs'' \<and>
   load_lemma_dict ([''dogs hound'', ''# note''] @ [('' Dogs'' @ [CHR 0x09] @ ''Dog food '')]) ''dogs'' =
     Some ''dog food''"
proof -
  have p: "parse_line ('' Dogs'' @ [CHR 0x09] @ ''Dog food '') = Some (''Dogs'', ''Dog food'')"
    by (simp add: parse_line_def split_first_def Let_def eval_simps)
  have t: "CHR 0x09 \<in> set (str_strip ('' Dogs'' @ [CHR 0x09] @ ''Dog food ''))"
    by (simp add: eval_simps)
  note inst = load_lemma_dict_lines [of "'' Dogs'' @ [CHR 0x09] @ ''Dog food ''" "''Dogs''" "''Dog food''"
      "[''dogs hound'', ''# note'']"]
  from inst p t have "str_strip ('' Dogs'' @ [CHR 0x09] @ ''Dog food '') = ''Dogs'' @ [CHR 0x09] @ ''Dog food'' \<and>
      CHR 0x09 \<notin> set ''Dogs''"
    by blast
  moreover from inst p
  have "load_lemma_dict ([''dogs hound'', ''# note''] @ [('' Dogs'' @ [CHR 0x09] @ ''Dog food '')]) =
      (load_lemma_dict [''dogs hound'', ''# note''])(str_lower ''Dogs'' \<mapsto> str_lower ''Dog food'')"
    by simp
  then have "load_lemma_dict ([''dogs hound'', ''# note''] @ [('' Dogs'' @ [CHR 0x09] @ ''Dog food '')]) ''dogs'' =
     Some ''dog food''"
    by (simp add: eval_simps)
  ultimately show ?thesis using p t by blast
qed

section \<open>Sentences, tokens and rows are never empty\<close>

lemma sent_split_nonempty: "sent_split s \<noteq> []"
  by (cases s) (simp_all add: Let_def)

lemma sent_split_hd:
  "s \<noteq> [] \<Longrightarrow> hd (sent_split s) \<noteq> [] \<and> hd (hd (sent_split s)) = hd s"
  by (cases s) (simp_all add: Let_def)

lemma sent_start_not_space: "is_sent_start c \<Longrightarrow> \<not> is_space c"
  by (auto simp: is_sent_start_def char_defs Let_def)

lemma sent_split_tl:
  "p \<in> set (tl (sent_split s)) \<Longrightarrow> p \<noteq> [] \<and> is_sent_start (hd p)"
proof (induction s rule: sent_split.induct)
  case 1
  then show ?case by simp
next
  case (2 c cs)
  let ?rest = "dropWhile is_space cs"
  show ?case
  proof (cases "is_sent_end c \<and> takeWhile is_space cs \<noteq> [] \<and>
         (case ?rest of [] \<Rightarrow> False | d # _ \<Rightarrow> is_sent_start d)")
    case True
    then obtain d r where dr: "?rest = d # r" "is_sent_start d"
      by (cases ?rest) auto
    have rest: "?rest \<noteq> []" "is_sent_start (hd ?rest)"
      unfolding dr(1) using dr(2) by simp_all
    from True 2(3) have "p \<in> set (sent_split ?rest)" by simp
    then have "p = hd (sent_split ?rest) \<or> p \<in> set (tl (sent_split ?rest))"
      using sent_split_nonempty [of ?rest] by (cases "sent_split ?rest") auto
    then show ?thesis
    proof
      assume "p = hd (sent_split ?rest)"
      with sent_split_hd [OF rest(1)] rest(2) show ?thesis by simp
    next
      assume "p \<in> set (tl (sent_split ?rest))"
      with 2(1) True show ?thesis by simp
    qed
  next
    case False
    with 2(3) have "p \<in> set (tl (sent_split cs))" by (simp add: Let_def)
    with 2(2) False show ?thesis by simp
  qed
qed


lemma rstrip_prefix:
  "u = rev (dropWhile P (rev u)) @ rev (takeWhile P (rev u))"
proof -
  have "rev (takeWhile P (rev u) @ dropWhile P (rev u)) = rev (rev u)"
    by (simp only: takeWhile_dropWhile_id)
  then show ?thesis by (simp only: rev_append rev_rev_ident)
qed

lemma str_strip_hd:
  assumes "str_strip t \<noteq> []"
  shows "\<not> is_space (hd (str_strip t))"
proof -
  let ?u = "dropWhile is_space t"
  have u: "?u = str_strip t @ rev (takeWhile is_space (rev ?u))"
    unfolding str_strip_def by (rule rstrip_prefix)
  have "?u \<noteq> []"
  proof
    assume e: "?u = []"
    have "str_strip t = []" unfolding str_strip_def e by simp
    with assms show False by simp
  qed
  then have "\<not> is_space (hd ?u)" by (rule hd_dropWhile)
  moreover from u assms have "hd ?u = hd (str_strip t)"
    by (metis hd_append2)
  ultimately show ?thesis by simp
qed

lemma collapse_ws_Nil: "collapse_ws s = [] \<longleftrightarrow> s = []"
  by (cases s) simp_all

lemma collapse_ws_hd: "s \<noteq> [] \<Longrightarrow> \<not> is_space (hd s) \<Longrightarrow> hd (collapse_ws s) = hd s"
  by (cases s) simp_all

lemma sentence_has_text:
  assumes "p \<in> set (sentence_segment text)"
  shows "\<exists>c\<in>set p. \<not> is_space c"
proof -
  let ?n = "collapse_ws (str_strip text)"
  from assms have n: "?n \<noteq> []" and p: "p \<in> set (sent_split ?n)"
    by (auto simp: sentence_segment_def Let_def split: if_splits)
  from n have t: "str_strip text \<noteq> []" by (simp add: collapse_ws_Nil)
  with str_strip_hd collapse_ws_hd have hd_n: "\<not> is_space (hd ?n)" by simp
  from p have "p = hd (sent_split ?n) \<or> p \<in> set (tl (sent_split ?n))"
    using sent_split_nonempty [of ?n] by (cases "sent_split ?n") auto
  then have "p \<noteq> [] \<and> \<not> is_space (hd p)"
  proof
    assume "p = hd (sent_split ?n)"
    with sent_split_hd [OF n] hd_n show ?thesis by simp
  next
    assume "p \<in> set (tl (sent_split ?n))"
    then show ?thesis using sent_split_tl sent_start_not_space by blast
  qed
  then show ?thesis by (cases p) auto
qed

lemma tokenize_nonempty: "\<exists>c\<in>set s. \<not> is_space c \<Longrightarrow> tokenize s \<noteq> []"
  by (induction s) auto

lemma pipeline_rows_nonempty:
  "pipeline_loop ss d mode w = Inr (results, w') \<Longrightarrow>
   (\<And>si sent. (si, sent) \<in> set ss \<Longrightarrow> tokenize sent \<noteq> []) \<Longrightarrow>
   rows \<in> set results \<Longrightarrow> rows \<noteq> []"
proof (induction ss arbitrary: w results)
  case Nil
  then show ?case by simp
next
  case (Cons s ss)
  obtain si sent where s: "s = (si, sent)" by (cases s)
  from Cons.prems(1) [unfolded s] show ?case
  proof (cases rule: pipeline_loop_Cons_cases)
    case (1 tagged w1 results')
    have toks: "tokenize sent \<noteq> []" using Cons.prems(2) [of si sent] s by simp
    have "map fst tagged = tokenize sent"
    proof (cases "mode = ''manual''")
      case True
      with 1(1) show ?thesis by (simp add: manual_pos_tag_tokens)
    next
      case False
      with 1(1) show ?thesis by (auto simp: comp_def)
    qed
    with toks have "tagged \<noteq> []" by auto
    moreover have "rows \<noteq> []" if "rows \<in> set results'"
    proof (rule Cons.IH [OF 1(2) _ that])
      show "tokenize sent' \<noteq> []" if "(si', sent') \<in> set ss" for si' sent'
        using Cons.prems(2) [of si' sent'] that by simp
    qed
    ultimately show ?thesis using Cons.prems(3) 1(3) by auto
  qed
qed

lemma tsv_lines_ok:
  "(\<And>rows. rows \<in> set results \<Longrightarrow> rows \<noteq> []) \<Longrightarrow> \<exists>ls. tsv_lines results = Inr ls"
proof (induction results)
  case Nil
  then show ?case by simp
next
  case (Cons rows results)
  from Cons.prems have "rows \<noteq> []" by simp
  then obtain r0 rs where "rows = r0 # rs" by (cases rows) auto
  moreover from Cons.IH Cons.prems obtain ls where "tsv_lines results = Inr ls" by auto
  ultimately show ?case by simp
qed

lemma pipeline_heuristic_total:
  "mode \<noteq> ''manual'' \<Longrightarrow> \<exists>results. pipeline_loop ss d mode w = Inr (results, w)"
proof (induction ss)
  case Nil
  then show ?case by simp
next
  case (Cons s ss)
  obtain si sent where s: "s = (si, sent)" by (cases s)
  from Cons obtain results where "pipeline_loop ss d mode w = Inr (results, w)" by auto
  with Cons.prems s show ?case by (simp add: Let_def)
qed

text \<open>
  Claim C10: every sentence the segmenter produces holds a character that is not
  whitespace; the tokenizer yields at least one token for every string that holds such a
  character (its last alternative matches any of them), hence for every sentence; so
  every list of rows a completed run builds for a sentence is non-empty, and
  \<open>write_tsv\<close> on the rows of a completed run returns its text, never failing at
  \<open>sent_rows[0]\<close>. In heuristic mode every run completes.
\<close>

theorem rows_never_empty:
  "(\<forall>s\<in>set (sentence_segment text). (\<exists>c\<in>set s. \<not> is_space c) \<and> tokenize s \<noteq> []) \<and>
   ((\<exists>c\<in>set sentence. \<not> is_space c) \<longrightarrow> tokenize sentence \<noteq> []) \<and>
   (run_pipeline text d pos_mode w = Inr (results, w') \<longrightarrow>
      (\<forall>rows\<in>set results. rows \<noteq> []) \<and> (\<exists>out. write_tsv results = Inr out)) \<and>
   (pos_mode \<noteq> ''manual'' \<longrightarrow>
      (\<exists>results. run_pipeline text d pos_mode w = Inr (results, w)))"
proof -
  have a: "\<forall>s\<in>set (sentence_segment text). (\<exists>c\<in>set s. \<not> is_space c) \<and> tokenize s \<noteq> []"
    using sentence_has_text tokenize_nonempty by blast
  have b: "(\<exists>c\<in>set sentence. \<not> is_space c) \<longrightarrow> tokenize sentence \<noteq> []"
    using tokenize_nonempty by blast
  have c: "(\<forall>rows\<in>set results. rows \<noteq> []) \<and> (\<exists>out. write_tsv results = Inr out)"
    if run: "run_pipeline text d pos_mode w = Inr (results, w')"
  proof -
    have "tokenize sent \<noteq> []" if "(si, sent) \<in> set (enumerate 1 (sentence_segment text))"
      for si sent
    proof -
      from that have "sent \<in> set (sentence_segment text)"
        by (auto simp: enumerate_eq_zip dest: set_zip_rightD)
      with a show ?thesis by blast
    qed
    with pipeline_rows_nonempty [OF run [unfolded run_pipeline_def]]
    have ne: "rows \<noteq> []" if "rows \<in> set results" for rows
      using that by blast
    from tsv_lines_ok [of results] ne obtain ls where "tsv_lines results = Inr ls" by blast
    then have "write_tsv results = Inr (join_lines ls)" by (simp add: write_tsv_def)
    with ne show ?thesis by blast
  qed
  have e: "pos_mode \<noteq> ''manual'' \<longrightarrow>
      (\<exists>results. run_pipeline text d pos_mode w = Inr (results, w))"
    using pipeline_heuristic_total by (simp add: run_pipeline_def)
  from a b c e show ?thesis by blast
qed


theorem rows_never_empty_witness:
  "run_pipeline ''Hi. Go'' Map.empty ''heuristic'' \<lparr>store = Missing, stdin = [], events = []\<rparr> =
     Inr ([[make_row 1 ''Hi.'' Map.empty (''Hi'', ''NOUN'', ''heuristic''),
            make_row 1 ''Hi.'' Map.empty (''.'', ''PUNCT'', ''heuristic'')],
           [make_row 2 ''Go'' Map.empty (''Go'', ''NOUN'', ''heuristic'')]],
          \<lparr>store = Missing, stdin = [], events = []\<rparr>) \<and>
   [make_row 1 ''Hi.'' Map.empty (''Hi'', ''NOUN'', ''heuristic''),
    make_row 1 ''Hi.'' Map.empty (''.'', ''PUNCT'', ''heuristic'')] \<noteq> [] \<and>
   [make_row 2 ''Go'' Map.empty (''Go'', ''NOUN'', ''heuristic'')] \<noteq> [] \<and>
   (\<exists>out. write_tsv
      [[make_row 1 ''Hi.'' Map.empty (''Hi'', ''NOUN'', ''heuristic''),
        make_row 1 ''Hi.'' Map.empty (''.'', ''PUNCT'', ''heuristic'')],
       [make_row 2 ''Go'' Map.empty (''Go'', ''NOUN'', ''heuristic'')]] = Inr out)"
proof -
  let ?w = "\<lparr>store = Missing, stdin = [], events = []\<rparr>"
  let ?results = "[[make_row 1 ''Hi.'' Map.empty (''Hi'', ''NOUN'', ''heuristic''),
            make_row 1 ''Hi.'' Map.empty (''.'', ''PUNCT'', ''heuristic'')],
           [make_row 2 ''Go'' Map.empty (''Go'', ''NOUN'', ''heuristic'')]]"
  have run: "run_pipeline ''Hi. Go'' Map.empty ''heuristic'' ?w = Inr (?results, ?w)"
    by (simp add: run_pipeline_def sentence_segment_def match_run_def heuristic_pos_def
        make_row_def fullmatch_punct_def fullmatch_run_def COMMON_DET_def COMMON_ADP_def
        COMMON_CONJ_def COMMON_PRON_def is_sent_end_def is_sent_start_def enumerate_eq_zip
        Let_def eval_simps)
  from rows_never_empty [of "''Hi. Go''" "''Hi.''" Map.empty "''heuristic''" ?w ?results ?w] run
  have "(\<forall>rows\<in>set ?results. rows \<noteq> []) \<and> (\<exists>out. write_tsv ?results = Inr out)"
    by blast
  with run show ?thesis by simp
qed

section \<open>The segmenter against its specification\<close>

lemma space_is_space: "is_space (CHR '' '')"
  by (simp add: char_defs)

lemma dropWhile_starts:
  "dropWhile P xs = [] \<or> \<not> P (hd (dropWhile P xs))"
  using hd_dropWhile [of P xs] by blast

lemma collapse_ws_keeps_start:
  "u = [] \<or> \<not> is_space (hd u) \<Longrightarrow> dropWhile is_space (collapse_ws u) = collapse_ws u"
  by (cases u) auto

lemma collapse_ws_lstrip:
  "dropWhile is_space (collapse_ws t) = collapse_ws (dropWhile is_space t)"
proof (cases t)
  case Nil
  then show ?thesis by simp
next
  case (Cons c cs)
  show ?thesis
  proof (cases "is_space c")
    case True
    have "dropWhile is_space (collapse_ws (dropWhile is_space cs)) =
        collapse_ws (dropWhile is_space cs)"
      by (rule collapse_ws_keeps_start) (rule dropWhile_starts)
    with True Cons show ?thesis by (simp add: space_is_space)
  next
    case False
    with Cons show ?thesis by simp
  qed
qed

lemma collapse_ws_all_space:
  "\<forall>x\<in>set b. is_space x \<Longrightarrow> collapse_ws b = (if b = [] then [] else '' '')"
proof (cases b)
  case Nil
  then show ?thesis by simp
next
  case (Cons c cs)
  assume "\<forall>x\<in>set b. is_space x"
  with Cons have c: "is_space c" and d: "dropWhile is_space cs = []"
    by (auto simp: dropWhile_eq_Nil_conv)
  show ?thesis unfolding Cons by (simp add: c d)
qed

lemma collapse_ws_append:
  "a \<noteq> [] \<Longrightarrow> \<not> is_space (last a) \<Longrightarrow>
   collapse_ws (a @ b) = collapse_ws a @ collapse_ws b"
proof (induction a rule: collapse_ws.induct)
  case 1
  then show ?case by simp
next
  case (2 c cs)
  show ?case
  proof (cases "is_space c")
    case True
    with "2.prems" have cs: "cs \<noteq> []" "\<not> is_space (last cs)" by (auto split: if_splits)
    then have "last cs \<in> set cs" by simp
    with cs(2) have ex: "\<exists>x\<in>set cs. \<not> is_space x" by blast
    then have app: "dropWhile is_space (cs @ b) = dropWhile is_space cs @ b"
      by (auto simp: dropWhile_append1)
    from ex have ne: "dropWhile is_space cs \<noteq> []" by (auto simp: dropWhile_eq_Nil_conv)
    have "cs = takeWhile is_space cs @ dropWhile is_space cs" by simp
    with ne have "last cs = last (dropWhile is_space cs)"
      by (metis last_appendR)
    with cs(2) have "\<not> is_space (last (dropWhile is_space cs))" by simp
    from "2.IH"(1) [OF True ne this] True app show ?thesis by simp
  next
    case False
    show ?thesis
    proof (cases "cs = []")
      case True
      with False show ?thesis by simp
    next
      case cs: False
      with "2.prems" have "\<not> is_space (last cs)" by simp
      from "2.IH"(2) [OF False cs this] False show ?thesis by simp
    qed
  qed
qed

lemma collapse_ws_last:
  "a \<noteq> [] \<Longrightarrow> \<not> is_space (last a) \<Longrightarrow>
   collapse_ws a \<noteq> [] \<and> last (collapse_ws a) = last a"
proof (induction a rule: collapse_ws.induct)
  case 1
  then show ?case by simp
next
  case (2 c cs)
  show ?case
  proof (cases "is_space c")
    case True
    with "2.prems" have cs: "cs \<noteq> []" "\<not> is_space (last cs)" by (auto split: if_splits)
    then have "last cs \<in> set cs" by simp
    with cs(2) have ex: "\<exists>x\<in>set cs. \<not> is_space x" by blast
    then have ne: "dropWhile is_space cs \<noteq> []" by (auto simp: dropWhile_eq_Nil_conv)
    have "cs = takeWhile is_space cs @ dropWhile is_space cs" by simp
    with ne have l: "last cs = last (dropWhile is_space cs)"
      by (metis last_appendR)
    with cs(2) have "\<not> is_space (last (dropWhile is_space cs))" by simp
    from "2.IH"(1) [OF True ne this] True l cs(1) show ?thesis by simp
  next
    case False
    show ?thesis
    proof (cases "cs = []")
      case True
      with False show ?thesis by simp
    next
      case cs: False
      with "2.prems" have "\<not> is_space (last cs)" by simp
      from "2.IH"(2) [OF False cs this] False cs show ?thesis by simp
    qed
  qed
qed


lemma rstrip_append:
  assumes "\<forall>x\<in>set b. is_space x" and "a = [] \<or> \<not> is_space (last a)"
  shows "rev (dropWhile is_space (rev (a @ b))) = a"
proof -
  have "dropWhile is_space (rev b @ rev a) = dropWhile is_space (rev a)"
    using assms(1) by (intro dropWhile_append2) simp
  moreover have "dropWhile is_space (rev a) = rev a"
    using assms(2) by (cases "rev a") (auto simp: last_rev [symmetric] simp del: last_rev)
  ultimately show ?thesis by simp
qed

lemma rstrip_decomp:
  obtains b where "s = rev (dropWhile is_space (rev s)) @ b" "\<forall>x\<in>set b. is_space x"
    "rev (dropWhile is_space (rev s)) = [] \<or>
     \<not> is_space (last (rev (dropWhile is_space (rev s))))"
proof
  show "s = rev (dropWhile is_space (rev s)) @ rev (takeWhile is_space (rev s))"
    by (rule rstrip_prefix)
  show "\<forall>x\<in>set (rev (takeWhile is_space (rev s))). is_space x"
    by (auto dest: set_takeWhileD)
  show "rev (dropWhile is_space (rev s)) = [] \<or>
     \<not> is_space (last (rev (dropWhile is_space (rev s))))"
    using dropWhile_starts [of is_space "rev s"] by (auto simp: last_rev)
qed

lemma collapse_ws_rstrip:
  "rev (dropWhile is_space (rev (collapse_ws s))) =
   collapse_ws (rev (dropWhile is_space (rev s)))"
proof -
  let ?a = "rev (dropWhile is_space (rev s))"
  obtain b where s: "s = ?a @ b" and b: "\<forall>x\<in>set b. is_space x"
    and a: "?a = [] \<or> \<not> is_space (last ?a)"
    by (rule rstrip_decomp)
  have cb: "\<forall>x\<in>set (collapse_ws b). is_space x"
    using collapse_ws_all_space [OF b] by (simp add: space_is_space)
  show ?thesis
  proof (cases "?a = []")
    case True
    from s [unfolded True] have "collapse_ws s = collapse_ws ([] @ b)" by (rule arg_cong)
    moreover have "rev (dropWhile is_space (rev ([] @ collapse_ws b))) = []"
      using cb by (intro rstrip_append) simp_all
    ultimately have "rev (dropWhile is_space (rev (collapse_ws s))) = []" by simp
    then show ?thesis unfolding True by simp
  next
    case False
    with a have last: "\<not> is_space (last ?a)" by blast
    from collapse_ws_append [OF False last, of b] s
    have "collapse_ws s = collapse_ws ?a @ collapse_ws b" by simp
    moreover have "rev (dropWhile is_space (rev (collapse_ws ?a @ collapse_ws b))) =
        collapse_ws ?a"
      using cb collapse_ws_last [OF False last] last by (intro rstrip_append) simp_all
    ultimately show ?thesis by simp
  qed
qed

lemma collapse_ws_strip: "str_strip (collapse_ws t) = collapse_ws (str_strip t)"
  by (simp add: str_strip_def collapse_ws_lstrip collapse_ws_rstrip)

lemma single_spaced_Cons:
  "single_spaced (c # s) \<longleftrightarrow>
     (s = [] \<or> \<not> (is_space c \<and> is_space (hd s))) \<and> single_spaced s"
  by (cases s) auto

lemma single_spaced_collapse_ws: "single_spaced (collapse_ws t)"
proof (induction t rule: collapse_ws.induct)
  case 1
  then show ?case by simp
next
  case (2 c cs)
  show ?case
  proof (cases "is_space c")
    case True
    let ?u = "dropWhile is_space cs"
    have "collapse_ws ?u = [] \<or> \<not> is_space (hd (collapse_ws ?u))"
    proof (cases "?u = []")
      case True
      show ?thesis unfolding True by simp
    next
      case False
      then have "\<not> is_space (hd ?u)" by (rule hd_dropWhile)
      with collapse_ws_hd [OF False this] show ?thesis by simp
    qed
    with "2.IH"(1) [OF True] True show ?thesis
      by (auto simp: single_spaced_Cons)
  next
    case False
    with "2.IH"(2) [OF False] show ?thesis by (simp add: single_spaced_Cons)
  qed
qed

lemma sent_split_spec:
  "single_spaced n \<Longrightarrow> start = is_sent_start \<Longrightarrow> sent_split n = spec_split start n"
proof (induction start n rule: spec_split.induct)
  case (1 start p s c rest)
  from "1.prems" have ss: "\<not> (is_space s \<and> is_space c)" "single_spaced (s # c # rest)"
    "single_spaced (c # rest)"
    by simp_all
  note start = "1.prems"(2)
  let ?cond = "is_sent_end p \<and> takeWhile is_space (s # c # rest) \<noteq> [] \<and>
         (case dropWhile is_space (s # c # rest) of [] \<Rightarrow> False | d # _ \<Rightarrow> is_sent_start d)"
  let ?cut = "(p = CHR ''.'' \<or> p = CHR ''!'' \<or> p = CHR ''?'') \<and> is_space s \<and> start c"
  have source: "sent_split (p # s # c # rest) =
      (if ?cond then [p] # sent_split (dropWhile is_space (s # c # rest))
       else (p # hd (sent_split (s # c # rest))) # tl (sent_split (s # c # rest)))"
    by (subst sent_split.simps(2)) (simp only: Let_def)
  have spec: "spec_split start (p # s # c # rest) =
      (if ?cut then [p] # spec_split start (c # rest)
       else (p # hd (spec_split start (s # c # rest))) # tl (spec_split start (s # c # rest)))"
    by (subst spec_split.simps(1)) (simp only: Let_def)
  have cond: "?cond \<longleftrightarrow> ?cut"
    using ss(1) unfolding start is_sent_end_def
    by (cases "is_space s") (simp_all del: sent_split.simps spec_split.simps)
  show ?case
  proof (cases ?cut)
    case True
    with ss(1) have rest: "dropWhile is_space (s # c # rest) = c # rest" by simp
    from True cond have "?cond" by blast
    then have "sent_split (p # s # c # rest) =
        [p] # sent_split (dropWhile is_space (s # c # rest))"
      unfolding source by (rule if_P)
    then have "sent_split (p # s # c # rest) = [p] # sent_split (c # rest)"
      unfolding rest .
    moreover have "spec_split start (p # s # c # rest) = [p] # spec_split start (c # rest)"
      unfolding spec using True by (rule if_P)
    ultimately show ?thesis
      using "1.IH"(1) [OF True ss(3) start] by (simp only:)
  next
    case False
    from False cond have "\<not> ?cond" by blast
    then have "sent_split (p # s # c # rest) =
        (p # hd (sent_split (s # c # rest))) # tl (sent_split (s # c # rest))"
      unfolding source by (rule if_not_P)
    moreover have "spec_split start (p # s # c # rest) =
        (p # hd (spec_split start (s # c # rest))) # tl (spec_split start (s # c # rest))"
      unfolding spec using False by (rule if_not_P)
    ultimately show ?thesis
      using "1.IH"(2) [OF False ss(2) start] by (simp only:)
  qed
qed (auto simp: Let_def split: list.splits)


lemma str_strip_Nil: "str_strip t = [] \<longleftrightarrow> (\<forall>x\<in>set t. is_space x)"
proof
  assume e: "str_strip t = []"
  show "\<forall>x\<in>set t. is_space x"
  proof (rule ccontr)
    assume "\<not> (\<forall>x\<in>set t. is_space x)"
    then have ne: "dropWhile is_space t \<noteq> []" by (simp add: dropWhile_eq_Nil_conv)
    then have "\<not> is_space (hd (dropWhile is_space t))" by (rule hd_dropWhile)
    moreover from ne have "hd (dropWhile is_space t) \<in> set (dropWhile is_space t)" by simp
    ultimately have "dropWhile is_space (rev (dropWhile is_space t)) \<noteq> []"
      by (auto simp: dropWhile_eq_Nil_conv)
    with e show False by (simp add: str_strip_def)
  qed
next
  assume "\<forall>x\<in>set t. is_space x"
  then have d: "dropWhile is_space t = []" by (simp add: dropWhile_eq_Nil_conv)
  show "str_strip t = []" unfolding str_strip_def d by simp
qed

text \<open>
  Claim C7, as stated: the text is cut wherever one of \<open>.\<close>, \<open>!\<close>, \<open>?\<close> is followed
  by whitespace that is followed by an uppercase letter, a digit or a quote character.
  The lookahead of the source is \<open>[A-Z0-9"']\<close>, which holds no uppercase letter beyond
  \<open>A\<close> to \<open>Z\<close>: before the uppercase letter 201 (E with acute accent) the
  specification cuts and the source does not.
\<close>

theorem sentence_segment_uppercase_counterexample:
  "is_upper_letter (CHR 0xC9) \<and>
   spec_segment claimed_start (''Oui. '' @ [CHR 0xC9] @ ''cole'') =
     [''Oui.'', CHR 0xC9 # ''cole''] \<and>
   sentence_segment (''Oui. '' @ [CHR 0xC9] @ ''cole'') = [''Oui. '' @ [CHR 0xC9] @ ''cole'']"
  by (simp add: spec_segment_def sentence_segment_def is_upper_letter_def claimed_start_def
      is_sent_end_def is_sent_start_def Let_def eval_simps)

text \<open>
  Claim C7, amended: for every input, \<open>sentence_segment\<close> returns what the specification
  describes (\<open>spec_segment\<close>) once the class after the whitespace is an ASCII uppercase
  letter \<open>A\<close> to \<open>Z\<close>, a digit \<open>0\<close> to \<open>9\<close>, \<open>"\<close> or \<open>'\<close>: the text with every
  run of whitespace collapsed to one space and its ends trimmed (in either order: the
  source trims first), cut exactly where one of \<open>.\<close>, \<open>!\<close>, \<open>?\<close> is followed by
  whitespace that is followed by a character of that class, the whitespace dropped and
  the punctuation mark kept at the end of the sentence before it; and it returns no
  sentence exactly when the input is empty or whitespace only.
\<close>

theorem sentence_segment_refines_spec:
  "sentence_segment text =
     spec_segment (\<lambda>c. is_ascii_upper c \<or> is_digit c \<or> c = CHR 0x22 \<or> c = CHR 0x27) text \<and>
   (sentence_segment text = [] \<longleftrightarrow> list_all is_space text)"
proof -
  let ?n = "collapse_ws (str_strip text)"
  let ?start = "\<lambda>c. is_ascii_upper c \<or> is_digit c \<or> c = CHR 0x22 \<or> c = CHR 0x27"
  have "?start = is_sent_start" by (simp add: fun_eq_iff is_sent_start_def)
  with single_spaced_collapse_ws have "sent_split ?n = spec_split ?start ?n"
    by (rule sent_split_spec)
  then have "sentence_segment text = spec_segment ?start text"
    by (simp add: sentence_segment_def spec_segment_def collapse_ws_strip Let_def)
  moreover have "sentence_segment text = [] \<longleftrightarrow> ?n = []"
    by (simp add: sentence_segment_def Let_def sent_split_nonempty)
  then have "sentence_segment text = [] \<longleftrightarrow> list_all is_space text"
    by (simp add: collapse_ws_Nil str_strip_Nil list_all_iff)
  ultimately show ?thesis by simp
qed

theorem sentence_segment_refines_spec_witness:
  "spec_segment (\<lambda>c. is_ascii_upper c \<or> is_digit c \<or> c = CHR 0x22 \<or> c = CHR 0x27)
     ''  Hi.   Go on? no.  3 ''  = [''Hi.'', ''Go on? no.'', ''3''] \<and>
   sentence_segment ''  Hi.   Go on? no.  3 '' = [''Hi.'', ''Go on? no.'', ''3''] \<and>
   \<not> list_all is_space ''  Hi.   Go on? no.  3 ''"
proof -
  have spec: "spec_segment (\<lambda>c. is_ascii_upper c \<or> is_digit c \<or> c = CHR 0x22 \<or> c = CHR 0x27)
      ''  Hi.   Go on? no.  3 ''  = [''Hi.'', ''Go on? no.'', ''3'']"
    by (simp add: spec_segment_def Let_def eval_simps)
  note inst = sentence_segment_refines_spec [of "''  Hi.   Go on? no.  3 ''"]
  from inst spec
  have seg: "sentence_segment ''  Hi.   Go on? no.  3 '' = [''Hi.'', ''Go on? no.'', ''3'']"
    by simp
  from seg have "sentence_segment ''  Hi.   Go on? no.  3 '' \<noteq> []" by simp
  with inst [THEN conjunct2] have "\<not> list_all is_space ''  Hi.   Go on? no.  3 ''"
    by (simp only:) simp
  with spec seg show ?thesis by simp
qed

end
